theory Spec2Isabelle
  imports Complex_Main "HOL-Library.Sublist"
begin

section \<open>VeriCite: the citation verification pipeline\<close>

text \<open>
  The repository holds three versions of \<^verbatim>\<open>parseAndVerifyCitations\<close>:
  \<^item> \<^verbatim>\<open>api/verify.ts\<close>, the serverless handler and its pipeline (suffix \<open>_api\<close> below);
  \<^item> \<^verbatim>\<open>src/services/geminiService.ts\<close>, the browser pipeline with the skeptic review
    step (suffix \<open>_client\<close>);
  \<^item> a third service file (\<^verbatim>\<open>unnamed/part_001\<close>) with a two-way status policy and no
    review step (suffix \<open>_legacy\<close>).
  Strings are lists of 8-bit characters, read as the UTF-16 code units U+0000 to U+00FF
  of a JavaScript string. The answers of the generative service, of the registry and of
  \<^verbatim>\<open>Math.random\<close> are inputs of the model (a \<open>world\<close>), one per call the code makes.
\<close>

subsection \<open>JavaScript values and strings\<close>

text \<open>An optional string: \<open>None\<close> is \<^verbatim>\<open>undefined\<close>; the empty string is falsy as well.\<close>

definition truthy :: "string option \<Rightarrow> bool" where
  "truthy v = (case v of None \<Rightarrow> False | Some s \<Rightarrow> s \<noteq> [])"

definition orElse :: "string option \<Rightarrow> string option \<Rightarrow> string option" where
  \<comment> \<open>\<^verbatim>\<open>a || b\<close>\<close>
  "orElse a b = (if truthy a then a else b)"

definition nullish :: "'a option \<Rightarrow> 'a option \<Rightarrow> 'a option" where
  \<comment> \<open>\<^verbatim>\<open>a ?? b\<close>\<close>
  "nullish a b = (case a of None \<Rightarrow> b | Some _ \<Rightarrow> a)"

definition lowerChar :: "char \<Rightarrow> char" where
  \<comment> \<open>A to Z, and the Latin-1 capitals U+00C0 to U+00DE without the multiplication sign.\<close>
  "lowerChar c =
     (let n = (of_char c :: nat)
      in if (65 \<le> n \<and> n \<le> 90) \<or> (192 \<le> n \<and> n \<le> 222 \<and> n \<noteq> 215)
         then char_of (n + 32) else c)"

definition toLowerCase :: "string \<Rightarrow> string" where
  "toLowerCase s = map lowerChar s"

fun startsWith :: "string \<Rightarrow> string \<Rightarrow> bool" where
  "startsWith s [] = True"
| "startsWith [] (c # t) = False"
| "startsWith (a # s) (c # t) = (a = c \<and> startsWith s t)"

fun includes_str :: "string \<Rightarrow> string \<Rightarrow> bool" where
  "includes_str [] t = (t = [])"
| "includes_str (a # s) t = (startsWith (a # s) t \<or> includes_str s t)"

subsection \<open>Regular expressions\<close>

text \<open>
  The fragment of ECMAScript regular expressions that the two DOI patterns use, as a
  backtracking matcher. A position in the subject is the text before it, reversed, and the
  text after it. A matcher returns the positions at which a match can end, in the order
  in which backtracking tries them; the first one is the match that \<^verbatim>\<open>exec\<close> reports.
  The flag \<^verbatim>\<open>i\<close> of both patterns changes nothing: they hold no letter, and no character
  has a digit, a dot, a slash, white space or one of the five excluded characters as its
  case-folded form.
\<close>

type_synonym pos = "string \<times> string"

datatype cclass = Exactly char | Digit | NonSpace | OneOf string

definition isDigit :: "char \<Rightarrow> bool" where
  "isDigit c = (c \<in> set ''0123456789'')"

definition isWordChar :: "char \<Rightarrow> bool" where
  "isWordChar c =
     (c \<in> set ''abcdefghijklmnopqrstuvwxyzABCDEFGHIJKLMNOPQRSTUVWXYZ0123456789_'')"

definition isWhiteSpace :: "char \<Rightarrow> bool" where
  \<comment> \<open>tab, line feed, vertical tab, form feed, carriage return, space, no-break space\<close>
  "isWhiteSpace c =
     (c \<in> set [CHR 0x09, CHR 0x0A, CHR 0x0B, CHR 0x0C, CHR 0x0D, CHR 0x20, CHR 0xA0])"

fun in_class :: "cclass \<Rightarrow> char \<Rightarrow> bool" where
  "in_class (Exactly a) c = (c = a)"
| "in_class Digit c = isDigit c"
| "in_class NonSpace c = (\<not> isWhiteSpace c)"
| "in_class (OneOf cs) c = (c \<in> set cs)"

datatype regex =
    Chr cclass
  | Boundary
  | NotAhead regex
  | Seq regex regex
  | Repeat nat "nat option" regex

text \<open>
  The greedy quantifier \<^verbatim>\<open>{lo,hi}\<close> (RepeatMatcher of the language specification): with
  \<open>hi = 0\<close> go on with what follows; otherwise try one more iteration first, refusing an
  iteration that consumes nothing once \<open>lo\<close> is 0, and go on with what follows only
  when \<open>lo\<close> is 0. The second argument bounds the depth of the recursion; \<open>matcher\<close> gives
  it \<open>lo\<close> plus the number of characters left, which is never exceeded.
\<close>

primrec rep :: "(pos \<Rightarrow> pos list) \<Rightarrow> nat \<Rightarrow> nat \<Rightarrow> nat option \<Rightarrow> pos \<Rightarrow> pos list" where
  "rep f 0 lo hi p = (if hi = Some 0 \<or> lo = 0 then [p] else [])"
| "rep f (Suc n) lo hi p =
     (if hi = Some 0 then [p]
      else concat (map (rep f n (lo - 1) (map_option (\<lambda>h. h - 1) hi))
                       (filter (\<lambda>q. \<not> (lo = 0 \<and> length (snd q) = length (snd p))) (f p)))
           @ (if lo = 0 then [p] else []))"

definition wordBefore :: "pos \<Rightarrow> bool" where
  "wordBefore p = (case fst p of [] \<Rightarrow> False | c # _ \<Rightarrow> isWordChar c)"

definition wordAfter :: "pos \<Rightarrow> bool" where
  "wordAfter p = (case snd p of [] \<Rightarrow> False | c # _ \<Rightarrow> isWordChar c)"

definition atBoundary :: "pos \<Rightarrow> bool" where
  \<comment> \<open>\<^verbatim>\<open>\b\<close>: a word character on exactly one side\<close>
  "atBoundary p = (wordBefore p \<noteq> wordAfter p)"

primrec matcher :: "regex \<Rightarrow> pos \<Rightarrow> pos list" where
  "matcher (Chr k) p =
     (case snd p of [] \<Rightarrow> [] | c # cs \<Rightarrow> if in_class k c then [(c # fst p, cs)] else [])"
| "matcher Boundary p = (if atBoundary p then [p] else [])"
| "matcher (NotAhead r) p = (if matcher r p = [] then [p] else [])"
| "matcher (Seq r1 r2) p = concat (map (matcher r2) (matcher r1 p))"
| "matcher (Repeat lo hi r) p = rep (matcher r) (lo + length (snd p)) lo hi p"

fun seqs :: "regex list \<Rightarrow> regex" where
  "seqs [] = Repeat 0 (Some 0) Boundary"
| "seqs [r] = r"
| "seqs (r # rs) = Seq r (seqs rs)"

definition matched :: "pos \<Rightarrow> pos \<Rightarrow> string" where
  \<comment> \<open>the characters between a position and a later one\<close>
  "matched p q = take (length (snd p) - length (snd q)) (snd p)"

text \<open>
  \<^verbatim>\<open>RegExp.prototype.exec\<close> without the global flag: try each start position from the
  left, report the first match of the first position that has one.
\<close>

fun exec :: "regex \<Rightarrow> pos \<Rightarrow> string option" where
  "exec r (b, a) =
     (case matcher r (b, a) of
        q # _ \<Rightarrow> Some (matched (b, a) q)
      | [] \<Rightarrow> (case a of [] \<Rightarrow> None | c # cs \<Rightarrow> exec r (c # b, cs)))"

definition match :: "string \<Rightarrow> regex \<Rightarrow> string option" where
  \<comment> \<open>\<^verbatim>\<open>s.match(r)\<close>, then element 0 of the result\<close>
  "match s r = exec r ([], s)"

text \<open>
  \<^verbatim>\<open>/\b(10[.][0-9]{4,}(?:[.][0-9]+)*\/(?:(?!["&'<>])\S)+)\b/i\<close>
  of \<^verbatim>\<open>api/verify.ts\<close> and \<^verbatim>\<open>src/services/geminiService.ts\<close>.
\<close>

definition doiRegex :: regex where
  "doiRegex = seqs
     [Boundary,
      Chr (Exactly CHR ''1''), Chr (Exactly CHR ''0''), Chr (Exactly CHR ''.''),
      Repeat 4 None (Chr Digit),
      Repeat 0 None (Seq (Chr (Exactly CHR ''.'')) (Repeat 1 None (Chr Digit))),
      Chr (Exactly CHR ''/''),
      Repeat 1 None
        (Seq (NotAhead (Chr (OneOf [CHR 0x22, CHR ''&'', CHR 0x27, CHR ''<'', CHR ''>''])))
             (Chr NonSpace)),
      Boundary]"

text \<open>\<^verbatim>\<open>/\b10\.\d{4,9}\/\S+\b/i\<close> of the third file.\<close>

definition doiRegex_legacy :: regex where
  "doiRegex_legacy = seqs
     [Boundary,
      Chr (Exactly CHR ''1''), Chr (Exactly CHR ''0''), Chr (Exactly CHR ''.''),
      Repeat 4 (Some 9) (Chr Digit),
      Chr (Exactly CHR ''/''),
      Repeat 1 None (Chr NonSpace),
      Boundary]"

subsection \<open>Identifier extraction\<close>

text \<open>
  \<^verbatim>\<open>let doi = item.doi; if (!doi) { const match = item.rawText.match(doiRegex);
  if (match) doi = match[0]; }\<close>
\<close>

definition extractDoi :: "regex \<Rightarrow> string option \<Rightarrow> string \<Rightarrow> string option" where
  "extractDoi rx doi rawText =
     (if \<not> truthy doi
      then (case match rawText rx of Some m0 \<Rightarrow> Some m0 | None \<Rightarrow> doi)
      else doi)"

subsection \<open>The DOI patterns, read as a grammar\<close>

text \<open>
  What the two patterns say, in terms of words instead of matcher runs. A word \<open>w\<close> is
  consumed between the positions \<open>p\<close> and \<open>q\<close> when it is the text between them.
\<close>

definition consumed :: "pos \<Rightarrow> pos \<Rightarrow> string \<Rightarrow> bool" where
  "consumed p q w \<longleftrightarrow> snd p = w @ snd q \<and> fst q = rev w @ fst p"

text \<open>A matcher recognises a set of words when its end positions are exactly the ones
  reached by consuming a word of the set; \<open>recognises_to\<close> asks for a word boundary at the
  end position in addition.\<close>

definition recognises :: "(pos \<Rightarrow> pos list) \<Rightarrow> string set \<Rightarrow> bool" where
  "recognises f A \<longleftrightarrow> (\<forall>p q. q \<in> set (f p) \<longleftrightarrow> (\<exists>w\<in>A. consumed p q w))"

definition recognises_to :: "(pos \<Rightarrow> pos list) \<Rightarrow> string set \<Rightarrow> bool" where
  "recognises_to f A \<longleftrightarrow>
     (\<forall>p q. q \<in> set (f p) \<longleftrightarrow> (\<exists>w\<in>A. consumed p q w) \<and> atBoundary q)"

definition le_opt :: "nat \<Rightarrow> nat option \<Rightarrow> bool" where
  "le_opt k hi = (case hi of None \<Rightarrow> True | Some h \<Rightarrow> k \<le> h)"

text \<open>
  The DOI form of the specification: \<^verbatim>\<open>10.\<close>, at least four digits, any number of
  sub-segments (a dot and at least one digit), a slash, then at least one character. The
  pattern of \<^verbatim>\<open>api/verify.ts\<close> excludes white space and the five characters
  \<^verbatim>\<open>" & ' < >\<close> from the part after the slash.
\<close>

definition isDigits :: "string \<Rightarrow> bool" where
  "isDigits w \<longleftrightarrow> (\<forall>c\<in>set w. isDigit c)"

definition doiSuffixChar :: "char \<Rightarrow> bool" where
  "doiSuffixChar c \<longleftrightarrow>
     c \<notin> set [CHR 0x22, CHR ''&'', CHR 0x27, CHR ''<'', CHR ''>''] \<and> \<not> isWhiteSpace c"

definition doiShape :: "string \<Rightarrow> bool" where
  "doiShape d \<longleftrightarrow>
     (\<exists>ds segs sfx.
        d = ''10.'' @ ds @ concat (map ((#) CHR ''.'') segs) @ ''/'' @ sfx
        \<and> 4 \<le> length ds \<and> isDigits ds
        \<and> (\<forall>g\<in>set segs. g \<noteq> [] \<and> isDigits g)
        \<and> sfx \<noteq> [] \<and> (\<forall>c\<in>set sfx. doiSuffixChar c))"

text \<open>The form that the pattern of the third file describes: four to nine digits, no
  sub-segments, any characters but white space after the slash.\<close>

definition doiShape_legacy :: "string \<Rightarrow> bool" where
  "doiShape_legacy d \<longleftrightarrow>
     (\<exists>ds sfx.
        d = ''10.'' @ ds @ ''/'' @ sfx
        \<and> 4 \<le> length ds \<and> length ds \<le> 9 \<and> isDigits ds
        \<and> sfx \<noteq> [] \<and> (\<forall>c\<in>set sfx. \<not> isWhiteSpace c))"

text \<open>An occurrence of a form in a text \<open>pre @ d @ post\<close>: \<open>d\<close> has the form and stands
  between two word boundaries.\<close>

definition occursAt :: "(string \<Rightarrow> bool) \<Rightarrow> string \<Rightarrow> string \<Rightarrow> string \<Rightarrow> bool" where
  "occursAt shape pre d post \<longleftrightarrow>
     shape d \<and> atBoundary (rev pre, d @ post) \<and> atBoundary (rev d @ rev pre, post)"

text \<open>A list of positions that begins with the one furthest into the text.\<close>

definition shorter_first :: "pos list \<Rightarrow> bool" where
  "shorter_first qs = sorted_wrt (\<lambda>a b. length (snd a) < length (snd b)) qs"

subsection \<open>CitationStatus\<close>

text \<open>
  A TypeScript string enum: at run time a status is the string itself, and
  \<^verbatim>\<open>review.newStatus as CitationStatus\<close> is an unchecked cast, so the field can hold any
  string.
\<close>

type_synonym CitationStatus = string

definition VERIFIED :: CitationStatus where "VERIFIED = ''VERIFIED''"
definition PARTIAL_MATCH :: CitationStatus where "PARTIAL_MATCH = ''PARTIAL_MATCH''"
definition UNVERIFIED :: CitationStatus where "UNVERIFIED = ''UNVERIFIED''"
definition HALLUCINATION :: CitationStatus where "HALLUCINATION = ''HALLUCINATION''"
definition PENDING :: CitationStatus where "PENDING = ''PENDING''"

subsection \<open>Evidence fusion\<close>

text \<open>
  \<^verbatim>\<open>api/verify.ts\<close>, lines 107 to 127: three \<^verbatim>\<open>if\<close> statements in sequence over the pair
  (status, confidence); a later one overwrites an earlier one.
\<close>

definition fuse_api :: "bool \<Rightarrow> bool \<Rightarrow> bool \<Rightarrow> CitationStatus \<times> real" where
  "fuse_api crossrefData hasChunks marker =
     (let sc = (UNVERIFIED, 0.5);
          sc = (if crossrefData \<or> hasChunks then (PARTIAL_MATCH, 0.75) else sc);
          sc = (if crossrefData \<and> hasChunks then (VERIFIED, 0.99) else sc);
          sc = (if marker then (HALLUCINATION, 0.95) else sc)
      in sc)"

text \<open>
  \<^verbatim>\<open>src/services/geminiService.ts\<close>, lines 101 to 121: the outer guard also fires on the
  word "verified" in the response (\<open>saysVerified\<close>), the inner \<^verbatim>\<open>if / else if\<close> looks at
  the two matches only.
\<close>

definition fuse_client :: "bool \<Rightarrow> bool \<Rightarrow> bool \<Rightarrow> bool \<Rightarrow> CitationStatus \<times> real" where
  "fuse_client crossrefData saysVerified hasChunks marker =
     (let sc = (UNVERIFIED, 0.5);
          sc = (if crossrefData \<or> saysVerified \<or> hasChunks then
                  (let hasDoiMatch = crossrefData; hasSearchMatch = hasChunks
                   in if hasDoiMatch \<and> hasSearchMatch then (VERIFIED, 0.99)
                      else if hasDoiMatch \<or> hasSearchMatch then (PARTIAL_MATCH, 0.75)
                      else sc)
                else sc);
          sc = (if marker then (HALLUCINATION, 0.95) else sc)
      in sc)"

text \<open>
  The third file, lines 106 to 117: an \<^verbatim>\<open>if / else if\<close> on the word "hallucination",
  then on the registry record or the word "verified".
\<close>

definition fuse_legacy :: "bool \<Rightarrow> bool \<Rightarrow> bool \<Rightarrow> CitationStatus \<times> real" where
  "fuse_legacy saysHallucination crossref saysVerified =
     (if saysHallucination then (HALLUCINATION, 0.95)
      else if crossref \<or> saysVerified then (VERIFIED, 0.98)
      else (UNVERIFIED, 0.5))"

text \<open>The table of the specification, section 4.3, written from its words.\<close>

definition fuse_table :: "bool \<Rightarrow> bool \<Rightarrow> bool \<Rightarrow> CitationStatus \<times> real" where
  "fuse_table registryMatch groundingMatch fabricationSignal =
     (if fabricationSignal then (HALLUCINATION, 0.95)
      else if registryMatch \<and> groundingMatch then (VERIFIED, 0.99)
      else if registryMatch \<noteq> groundingMatch then (PARTIAL_MATCH, 0.75)
      else (UNVERIFIED, 0.5))"

subsection \<open>Data model\<close>

text \<open>
  One element of the extraction call's JSON array. The response schema requires
  \<^verbatim>\<open>id\<close> and \<^verbatim>\<open>rawText\<close>, but the parsed value is used as it comes
  (\<^verbatim>\<open>as any[]\<close>), so every field may be absent; a field that is present holds a string
  (an array of strings for \<^verbatim>\<open>authors\<close>).
\<close>

record item =
  item_id :: "string option"
  item_rawText :: "string option"
  item_title :: "string option"
  item_authors :: "string list option"
  item_year :: "string option"
  item_doi :: "string option"

text \<open>
  The \<^verbatim>\<open>message\<close> of a registry answer, as far as the code reads it: the title array,
  the authors as (given, family), and the year at \<^verbatim>\<open>created['date-parts'][0][0]\<close> and at
  \<^verbatim>\<open>issued['date-parts'][0][0]\<close> after \<^verbatim>\<open>toString()\<close>.
\<close>

record crossrefMessage =
  cr_title :: "string list option"
  cr_author :: "(string \<times> string) list option"
  cr_created :: "string option"
  cr_issued :: "string option"

record groundingChunk =
  web_uri :: "string option"

record verifyResponse =
  vr_text :: "string option"
  vr_groundingChunks :: "groundingChunk list option"

record ParsedMetadata =
  title :: "string option"
  authors :: "string list option"
  year :: "string option"
  doi :: "string option"

text \<open>
  The field \<^verbatim>\<open>id\<close> is \<open>cit_id\<close> here; it is \<open>None\<close> where the third file copies an
  absent \<^verbatim>\<open>item.id\<close>. The field \<^verbatim>\<open>rawText\<close> is a copy of \<^verbatim>\<open>item.rawText\<close>, absent
  when that is.
\<close>

record Citation =
  cit_id :: "string option"
  rawText :: "string option"
  parsedMetadata :: ParsedMetadata
  status :: CitationStatus
  confidenceScore :: real
  explanation :: string
  sourceUrl :: "string option"
  verificationSource :: string

text \<open>The field \<^verbatim>\<open>total\<close> is \<open>total_n\<close> here.\<close>

record Summary =
  total_n :: nat
  verified :: nat
  hallucinated :: nat
  unverified :: nat

text \<open>A parsed JSON object with string values, in key order.\<close>

type_synonym jsonObject = "(string \<times> string) list"

record VerificationResult =
  citations :: "Citation list"
  summary :: Summary
  multiStyleBib :: "jsonObject option"

record review =
  review_id :: string
  newStatus :: string
  reasoning :: string

subsection \<open>The collaborators\<close>

datatype error = NotInitialized | UpstreamError | SyntaxError | TypeError

text \<open>An awaited call: the promise rejects or resolves.\<close>

datatype 'a call = Rejects | Resolves 'a

text \<open>
  A \<^verbatim>\<open>generateContent\<close> call whose text goes to \<^verbatim>\<open>JSON.parse\<close>: the call rejects, or its
  text (given) is not JSON, the empty text included, or it is the JSON text of a value
  of the kind the response schema declares: an array of objects, or an object. The
  fields that the schema requires of an extracted item may be missing all the same.
\<close>

datatype 'a json_call = Rejected | Unparsable string | Json 'a

definition parsedResponse :: "'a json_call \<Rightarrow> error + 'a" where
  "parsedResponse r =
     (case r of Rejected \<Rightarrow> Inl UpstreamError
              | Unparsable t \<Rightarrow> Inl SyntaxError
              | Json v \<Rightarrow> Inr v)"

text \<open>The registry request: \<^verbatim>\<open>fetch\<close> throws, answers with a status that is not ok, with a
  body that is not JSON, or with a JSON body whose \<^verbatim>\<open>message\<close> may be absent.\<close>

datatype fetch_outcome = FetchThrows | NotOk | BadJson | Message "crossrefMessage option"

text \<open>
  \<^verbatim>\<open>fetchCrossrefMetadata\<close> (the same in the three files, up to the form of the request):
  every failure is caught and becomes \<^verbatim>\<open>null\<close>. The request itself is not modelled, its
  outcome is the input.
\<close>

definition fetchCrossrefMetadata :: "fetch_outcome \<Rightarrow> crossrefMessage option" where
  "fetchCrossrefMetadata out =
     (case out of FetchThrows \<Rightarrow> None | NotOk \<Rightarrow> None | BadJson \<Rightarrow> None
                | Message msg \<Rightarrow> msg)"

text \<open>What the outside answers while one item is verified; \<open>random36\<close> is
  \<^verbatim>\<open>Math.random().toString(36)\<close>.\<close>

record answers =
  crossref_fetch :: fetch_outcome
  verify_call :: "verifyResponse call"
  random36 :: string

text \<open>
  One run: whether the client of \<^verbatim>\<open>src/services/geminiService.ts\<close> was created, the
  answer of the extraction call for a text, the answers for the \<open>i\<close>-th item, and the
  answers of the review call and of the bibliography call (made at most once each).
\<close>

record world =
  ai :: bool
  extraction :: "string \<Rightarrow> item list json_call"
  answer :: "nat \<Rightarrow> answers"
  review_call :: "review list json_call"
  bibliography :: "jsonObject json_call"

subsection \<open>Verifying one item\<close>

definition firstTitle :: "crossrefMessage option \<Rightarrow> string option" where
  \<comment> \<open>\<^verbatim>\<open>crossrefData?.title?.[0]\<close>\<close>
  "firstTitle cr =
     (case cr of None \<Rightarrow> None
      | Some msg \<Rightarrow> (case cr_title msg of None \<Rightarrow> None | Some [] \<Rightarrow> None | Some (t # _) \<Rightarrow> Some t))"

definition authorNames :: "crossrefMessage option \<Rightarrow> string list option" where
  \<comment> \<open>\<^verbatim>\<open>crossrefData?.author?.map((a) => `${a.given} ${a.family}`)\<close>\<close>
  "authorNames cr =
     (case cr of None \<Rightarrow> None
      | Some msg \<Rightarrow> map_option (map (\<lambda>(g, f). g @ '' '' @ f)) (cr_author msg))"

definition doiUrl :: "string option \<Rightarrow> string option" where
  \<comment> \<open>\<^verbatim>\<open>doi ? `https://doi.org/${doi}` : undefined\<close>\<close>
  "doiUrl d = (case d of None \<Rightarrow> None
               | Some s \<Rightarrow> if s \<noteq> [] then Some (''https://doi.org/'' @ s) else None)"

definition firstUri :: "groundingChunk list \<Rightarrow> string option" where
  \<comment> \<open>\<^verbatim>\<open>groundingChunks[0]?.web?.uri\<close>\<close>
  "firstUri cs = (case cs of [] \<Rightarrow> None | ch # _ \<Rightarrow> web_uri ch)"

definition fabricationMarker :: "string \<Rightarrow> bool" where
  "fabricationMarker responseText =
     (includes_str responseText ''hallucinated'' \<or> includes_str responseText ''fabricated''
      \<or> includes_str responseText ''fake'')"

text \<open>
  The first lines of the loop body in the three files, on an item as it was parsed:
  \<^verbatim>\<open>item.rawText\<close> is read only when \<^verbatim>\<open>item.doi\<close> is falsy, and \<^verbatim>\<open>.match\<close> on an absent
  \<^verbatim>\<open>rawText\<close> throws a \<^verbatim>\<open>TypeError\<close>. An item with a given identifier passes whether or not
  it has a \<^verbatim>\<open>rawText\<close>.
\<close>

definition itemDoi :: "regex \<Rightarrow> item \<Rightarrow> error + string option" where
  "itemDoi rx it =
     (if \<not> truthy (item_doi it)
      then (case item_rawText it of
              None \<Rightarrow> Inl TypeError
            | Some raw \<Rightarrow> Inr (extractDoi rx (item_doi it) raw))
      else Inr (item_doi it))"

text \<open>\<^verbatim>\<open>api/verify.ts\<close>, the body of the loop (lines 75 to 152).\<close>

definition verifyItem_api :: "answers \<Rightarrow> item \<Rightarrow> error + Citation" where
  "verifyItem_api a it =
     (case itemDoi doiRegex it of
        Inl e \<Rightarrow> Inl e
      | Inr found \<Rightarrow>
     (let doi = found;
          crossrefData = (if truthy doi then fetchCrossrefMetadata (crossref_fetch a) else None)
      in case verify_call a of
           Rejects \<Rightarrow> Inl UpstreamError
         | Resolves verifyResponse \<Rightarrow>
             (case vr_text verifyResponse of
                None \<Rightarrow> Inl TypeError
              | Some text \<Rightarrow>
                  (let responseText = toLowerCase text;
                       groundingChunks =
                         (case vr_groundingChunks verifyResponse of None \<Rightarrow> [] | Some cs \<Rightarrow> cs);
                       sc = fuse_api (crossrefData \<noteq> None) (length groundingChunks > 0)
                              (fabricationMarker responseText)
                   in Inr \<lparr>cit_id = orElse (item_id it) (Some (drop 2 (random36 a))),
                           rawText = item_rawText it,
                           parsedMetadata =
                             \<lparr>title = orElse (firstTitle crossrefData) (item_title it),
                              authors = nullish (authorNames crossrefData) (item_authors it),
                              year = orElse (case crossrefData of None \<Rightarrow> None
                                             | Some msg \<Rightarrow> cr_created msg) (item_year it),
                              doi = doi\<rparr>,
                           status = fst sc,
                           confidenceScore = snd sc,
                           explanation = text,
                           sourceUrl = orElse (firstUri groundingChunks) (doiUrl doi),
                           verificationSource =
                             (if crossrefData \<noteq> None then ''Crossref '' else [])
                             @ (if length groundingChunks > 0 then ''+ Web Search'' else [])\<rparr>))))"

text \<open>\<^verbatim>\<open>src/services/geminiService.ts\<close>, the body of the loop (lines 70 to 137).\<close>

definition verifyItem_client :: "answers \<Rightarrow> item \<Rightarrow> error + Citation" where
  "verifyItem_client a it =
     (case itemDoi doiRegex it of
        Inl e \<Rightarrow> Inl e
      | Inr found \<Rightarrow>
     (let doi = found;
          crossrefData = (if truthy doi then fetchCrossrefMetadata (crossref_fetch a) else None)
      in case verify_call a of
           Rejects \<Rightarrow> Inl UpstreamError
         | Resolves verifyResponse \<Rightarrow>
             (let groundingChunks =
                    (case vr_groundingChunks verifyResponse of None \<Rightarrow> [] | Some cs \<Rightarrow> cs);
                  sourceUrl = orElse (firstUri groundingChunks) (doiUrl doi)
              in case vr_text verifyResponse of
                   None \<Rightarrow> Inl TypeError
                 | Some text \<Rightarrow>
                     (let responseText = toLowerCase text;
                          sc = fuse_client (crossrefData \<noteq> None)
                                 (includes_str responseText ''verified'')
                                 (length groundingChunks \<ge> 1)
                                 (fabricationMarker responseText)
                      in Inr \<lparr>cit_id = orElse (item_id it) (Some (take 9 (drop 2 (random36 a)))),
                              rawText = item_rawText it,
                              parsedMetadata =
                                \<lparr>title = orElse (firstTitle crossrefData) (item_title it),
                                 authors = nullish (authorNames crossrefData) (item_authors it),
                                 year = orElse (case crossrefData of None \<Rightarrow> None
                                                | Some msg \<Rightarrow> cr_created msg) (item_year it),
                                 doi = doi\<rparr>,
                              status = fst sc,
                              confidenceScore = snd sc,
                              explanation = text,
                              sourceUrl = sourceUrl,
                              verificationSource =
                                (if crossrefData \<noteq> None then ''Crossref '' else [])
                                @ (if length groundingChunks > 0
                                   then ''+ Web Scholarly Index'' else [])\<rparr>))))"

text \<open>The third file, the body of the loop (lines 84 to 139).\<close>

definition verifyItem_legacy :: "answers \<Rightarrow> item \<Rightarrow> error + Citation" where
  "verifyItem_legacy a it =
     (case itemDoi doiRegex_legacy it of
        Inl e \<Rightarrow> Inl e
      | Inr found \<Rightarrow>
     (let doi = found;
          crossref = (if truthy doi then fetchCrossrefMetadata (crossref_fetch a) else None)
      in case verify_call a of
           Rejects \<Rightarrow> Inl UpstreamError
         | Resolves verify \<Rightarrow>
             (case vr_text verify of
                None \<Rightarrow> Inl TypeError
              | Some text \<Rightarrow>
                  (let r = toLowerCase text;
                       sc = fuse_legacy (includes_str r ''hallucination'') (crossref \<noteq> None)
                              (includes_str r ''verified'')
                   in Inr \<lparr>cit_id = item_id it,
                           rawText = item_rawText it,
                           parsedMetadata =
                             \<lparr>title = nullish (firstTitle crossref) (item_title it),
                              authors = nullish (authorNames crossref) (item_authors it),
                              year = nullish (case crossref of None \<Rightarrow> None
                                              | Some msg \<Rightarrow> cr_issued msg) (item_year it),
                              doi = doi\<rparr>,
                           status = fst sc,
                           confidenceScore = snd sc,
                           explanation = text,
                           sourceUrl = doiUrl doi,
                           verificationSource =
                             (if crossref \<noteq> None then ''Crossref'' else ''Gemini'')\<rparr>))))"

text \<open>
  \<^verbatim>\<open>for (const item of extracted) { ... citations.push(...) }\<close>: the items in order, the
  \<open>i\<close>-th with the \<open>i\<close>-th answers; the first exception ends the loop and the function.
\<close>

fun verifyLoop ::
  "(answers \<Rightarrow> item \<Rightarrow> error + Citation) \<Rightarrow> (nat \<Rightarrow> answers) \<Rightarrow> nat \<Rightarrow> item list
     \<Rightarrow> error + Citation list" where
  "verifyLoop v ans i [] = Inr []"
| "verifyLoop v ans i (it # its) =
     (case v (ans i) it of
        Inl e \<Rightarrow> Inl e
      | Inr c \<Rightarrow> (case verifyLoop v ans (Suc i) its of
                   Inl e \<Rightarrow> Inl e
                 | Inr cs \<Rightarrow> Inr (c # cs)))"

subsection \<open>Bibliography and summary\<close>

text \<open>
  \<^verbatim>\<open>let multiStyleBib = undefined; if (verified.length > 0) { ...
  multiStyleBib = JSON.parse(bibResponse.text); }\<close>
\<close>

definition renderBibliography :: "world \<Rightarrow> Citation list \<Rightarrow> error + jsonObject option" where
  "renderBibliography w verifiedCitations =
     (if length verifiedCitations > 0
      then (case parsedResponse (bibliography w) of Inl e \<Rightarrow> Inl e | Inr b \<Rightarrow> Inr (Some b))
      else Inr None)"

definition countStatus :: "(CitationStatus \<Rightarrow> bool) \<Rightarrow> Citation list \<Rightarrow> nat" where
  \<comment> \<open>\<^verbatim>\<open>citations.filter((c) => ... c.status ...).length\<close>\<close>
  "countStatus P cs = length (filter (\<lambda>c. P (status c)) cs)"

subsection \<open>The three pipelines\<close>

text \<open>\<^verbatim>\<open>api/verify.ts\<close>, \<^verbatim>\<open>parseAndVerifyCitations\<close>.\<close>

definition parseAndVerifyCitations_api :: "world \<Rightarrow> string \<Rightarrow> error + VerificationResult" where
  "parseAndVerifyCitations_api w text =
     (case parsedResponse (extraction w text) of
        Inl e \<Rightarrow> Inl e
      | Inr extracted \<Rightarrow>
          (case verifyLoop verifyItem_api (answer w) 0 extracted of
             Inl e \<Rightarrow> Inl e
           | Inr cits \<Rightarrow>
               (let verified = filter (\<lambda>c. status c = VERIFIED) cits
                in case renderBibliography w verified of
                     Inl e \<Rightarrow> Inl e
                   | Inr bib \<Rightarrow>
                       Inr \<lparr>citations = cits,
                            summary =
                              \<lparr>total_n = length cits,
                               verified = length verified,
                               hallucinated = countStatus (\<lambda>s. s = HALLUCINATION) cits,
                               unverified =
                                 countStatus (\<lambda>s. s = UNVERIFIED \<or> s = PARTIAL_MATCH) cits\<rparr>,
                            multiStyleBib = bib\<rparr>)))"

text \<open>
  The review step of \<^verbatim>\<open>src/services/geminiService.ts\<close>, lines 164 to 174: the first
  review with the citation's id, applied when its status differs.
\<close>

definition applyReview :: "review list \<Rightarrow> Citation \<Rightarrow> Citation" where
  "applyReview reviews c =
     (case find (\<lambda>r. Some (review_id r) = cit_id c) reviews of
        Some review \<Rightarrow>
          if newStatus review \<noteq> status c
          then c\<lparr>status := newStatus review,
                 explanation :=
                   explanation c @ [CHR 0x0A, CHR 0x0A] @ ''[Skeptic Review]: ''
                     @ reasoning review\<rparr>
          else c
      | None \<Rightarrow> c)"

text \<open>
  \<^verbatim>\<open>src/services/geminiService.ts\<close>, \<^verbatim>\<open>parseAndVerifyCitations\<close>. The \<^verbatim>\<open>catch\<close> block logs
  and throws the error again, so every error leaves the function as it is.
\<close>

definition parseAndVerifyCitations_client :: "world \<Rightarrow> string \<Rightarrow> error + VerificationResult" where
  "parseAndVerifyCitations_client w text =
     (if \<not> ai w then Inl NotInitialized
      else case parsedResponse (extraction w text) of
        Inl e \<Rightarrow> Inl e
      | Inr extractedCitations \<Rightarrow>
          (case verifyLoop verifyItem_client (answer w) 0 extractedCitations of
             Inl e \<Rightarrow> Inl e
           | Inr fused \<Rightarrow>
               (case parsedResponse (review_call w) of
                  Inl e \<Rightarrow> Inl e
                | Inr reviews \<Rightarrow>
                    (let cits = map (applyReview reviews) fused;
                         verifiedCitations = filter (\<lambda>c. status c = VERIFIED) cits
                     in case renderBibliography w verifiedCitations of
                          Inl e \<Rightarrow> Inl e
                        | Inr bib \<Rightarrow>
                            Inr \<lparr>citations = cits,
                                 summary =
                                   \<lparr>total_n = length cits,
                                    verified = countStatus (\<lambda>s. s = VERIFIED) cits,
                                    hallucinated = countStatus (\<lambda>s. s = HALLUCINATION) cits,
                                    unverified =
                                      countStatus (\<lambda>s. s = UNVERIFIED \<or> s = PARTIAL_MATCH)
                                        cits\<rparr>,
                                 multiStyleBib = bib\<rparr>))))"

text \<open>The third file, \<^verbatim>\<open>parseAndVerifyCitations\<close>.\<close>

definition parseAndVerifyCitations_legacy :: "world \<Rightarrow> string \<Rightarrow> error + VerificationResult" where
  "parseAndVerifyCitations_legacy w text =
     (case parsedResponse (extraction w text) of
        Inl e \<Rightarrow> Inl e
      | Inr extracted \<Rightarrow>
          (case verifyLoop verifyItem_legacy (answer w) 0 extracted of
             Inl e \<Rightarrow> Inl e
           | Inr cits \<Rightarrow>
               (let verified = filter (\<lambda>c. status c = VERIFIED) cits
                in case renderBibliography w verified of
                     Inl e \<Rightarrow> Inl e
                   | Inr bib \<Rightarrow>
                       Inr \<lparr>citations = cits,
                            summary =
                              \<lparr>total_n = length cits,
                               verified = length verified,
                               hallucinated = countStatus (\<lambda>s. s = HALLUCINATION) cits,
                               unverified = countStatus (\<lambda>s. s = UNVERIFIED) cits\<rparr>,
                            multiStyleBib = bib\<rparr>)))"

subsection \<open>The HTTP handler of \<^verbatim>\<open>api/verify.ts\<close>\<close>






subsection \<open>The three evidence signals\<close>

text \<open>
  The inputs of the fusion as section 4.3 of the specification names them, read off the
  answers for one item: the identifier resolved to a registry record, the verification
  pass returned at least one grounding reference, its text holds a fabrication marker.
\<close>

definition responseTextOf :: "answers \<Rightarrow> string" where
  "responseTextOf a =
     (case verify_call a of
        Rejects \<Rightarrow> []
      | Resolves r \<Rightarrow> (case vr_text r of None \<Rightarrow> [] | Some t \<Rightarrow> toLowerCase t))"

definition registryMatch :: "regex \<Rightarrow> answers \<Rightarrow> item \<Rightarrow> bool" where
  "registryMatch rx a it =
     (case itemDoi rx it of
        Inl e \<Rightarrow> False
      | Inr found \<Rightarrow> truthy found \<and> fetchCrossrefMetadata (crossref_fetch a) \<noteq> None)"

definition groundingMatch :: "answers \<Rightarrow> bool" where
  "groundingMatch a =
     (case verify_call a of
        Rejects \<Rightarrow> False
      | Resolves r \<Rightarrow> (case vr_groundingChunks r of None \<Rightarrow> False | Some cs \<Rightarrow> cs \<noteq> []))"

definition fabricationSignal :: "answers \<Rightarrow> bool" where
  "fabricationSignal a = fabricationMarker (responseTextOf a)"

subsection \<open>Example runs\<close>

definition ex_item :: item where
  "ex_item =
     \<lparr>item_id = Some ''1'',
      item_rawText = Some ''Smith (2020) found X [doi: 10.1000/xyz123]'',
      item_title = None, item_authors = None, item_year = None, item_doi = None\<rparr>"

definition ex_message :: crossrefMessage where
  "ex_message =
     \<lparr>cr_title = Some [''X''], cr_author = Some [(''Jo'', ''Smith'')],
      cr_created = Some ''2020'', cr_issued = Some ''2020''\<rparr>"

text \<open>The registry knows the identifier; the verification pass says little and grounds
  nothing.\<close>

definition ex_registry_only :: answers where
  "ex_registry_only =
     \<lparr>crossref_fetch = Message (Some ex_message),
      verify_call =
        Resolves \<lparr>vr_text = Some ''This source exists.'', vr_groundingChunks = None\<rparr>,
      random36 = ''0.k3x9q2m7p1z''\<rparr>"

definition ex_metadata :: ParsedMetadata where
  "ex_metadata =
     \<lparr>title = Some ''X'', authors = Some [''Jo Smith''], year = Some ''2020'',
      doi = Some ''10.1000/xyz123''\<rparr>"

definition ex_api_citation :: Citation where
  "ex_api_citation =
     \<lparr>cit_id = Some ''1'',
      rawText = Some ''Smith (2020) found X [doi: 10.1000/xyz123]'',
      parsedMetadata = ex_metadata,
      status = PARTIAL_MATCH, confidenceScore = 0.75,
      explanation = ''This source exists.'',
      sourceUrl = Some ''https://doi.org/10.1000/xyz123'',
      verificationSource = ''Crossref ''\<rparr>"

definition ex_legacy_citation :: Citation where
  "ex_legacy_citation =
     ex_api_citation\<lparr>status := VERIFIED, confidenceScore := 0.98,
                      verificationSource := ''Crossref''\<rparr>"

text \<open>Registry and grounding both answer.\<close>

definition ex_both :: answers where
  "ex_both =
     ex_registry_only
       \<lparr>verify_call :=
          Resolves \<lparr>vr_text = Some ''This source exists.'',
                    vr_groundingChunks = Some [\<lparr>web_uri = Some ''https://example.org/x''\<rparr>]\<rparr>\<rparr>"

definition ex_fused_citation :: Citation where
  "ex_fused_citation =
     ex_api_citation
       \<lparr>status := VERIFIED, confidenceScore := 0.99,
        sourceUrl := Some ''https://example.org/x'',
        verificationSource := ''Crossref + Web Scholarly Index''\<rparr>"

text \<open>The review prompt asks to downgrade \<^verbatim>\<open>'VERIFIED'\<close> to \<^verbatim>\<open>'UNVERIFIABLE'\<close>.\<close>

definition ex_review :: review where
  "ex_review =
     \<lparr>review_id = ''1'', newStatus = ''UNVERIFIABLE'',
      reasoning = ''Confidence is not absolute.''\<rparr>"

definition ex_reviewed_citation :: Citation where
  "ex_reviewed_citation =
     ex_fused_citation
       \<lparr>status := ''UNVERIFIABLE'',
        explanation :=
          ''This source exists.'' @ [CHR 0x0A, CHR 0x0A]
            @ ''[Skeptic Review]: Confidence is not absolute.''\<rparr>"

definition ex_bib :: jsonObject where
  "ex_bib =
     [(''apa'', ''Smith, J. (2020). X.''), (''mla'', ''Smith, Jo. X. 2020.''),
      (''chicago'', ''Smith, Jo. 2020. X.''), (''ieee'', ''J. Smith, X, 2020.'')]"

definition ex_bib_blank :: jsonObject where
  "ex_bib_blank = [(''apa'', []), (''mla'', []), (''chicago'', []), (''ieee'', [])]"

definition ex_world ::
  "item list \<Rightarrow> answers \<Rightarrow> review list json_call \<Rightarrow> jsonObject json_call \<Rightarrow> world" where
  "ex_world items a rv b =
     \<lparr>ai = True, extraction = (\<lambda>text. Json items), answer = (\<lambda>i. a),
      review_call = rv, bibliography = b\<rparr>"

definition ex_result :: "Citation list \<Rightarrow> nat \<Rightarrow> nat \<Rightarrow> jsonObject option \<Rightarrow> VerificationResult" where
  "ex_result cs v u b =
     \<lparr>citations = cs,
      summary = \<lparr>total_n = length cs, verified = v, hallucinated = 0, unverified = u\<rparr>,
      multiStyleBib = b\<rparr>"

text \<open>One item, verified by both sources, then reviewed as the prompt asks.\<close>

definition ex_review_world :: world where
  "ex_review_world = ex_world [ex_item] ex_both (Json [ex_review]) (Json ex_bib)"

definition ex_review_result :: VerificationResult where
  "ex_review_result = ex_result [ex_reviewed_citation] 0 0 None"

text \<open>The same, with a review that answers PENDING.\<close>

definition ex_pending_world :: world where
  "ex_pending_world =
     ex_world [ex_item] ex_both (Json [ex_review\<lparr>newStatus := PENDING\<rparr>]) (Json ex_bib)"

definition ex_pending_result :: VerificationResult where
  "ex_pending_result = ex_result [ex_reviewed_citation\<lparr>status := PENDING\<rparr>] 0 0 None"

definition ex_plain_world :: world where
  "ex_plain_world = ex_world [ex_item] ex_registry_only (Json []) (Json ex_bib)"

definition ex_plain_result :: VerificationResult where
  "ex_plain_result = ex_result [ex_api_citation] 0 1 None"

definition ex_legacy_result :: VerificationResult where
  "ex_legacy_result = ex_result [ex_legacy_citation] 1 0 (Some ex_bib)"

text \<open>The review call rejects, or answers with text that is not JSON.\<close>

definition ex_review_down :: world where
  "ex_review_down = ex_world [ex_item] ex_both Rejected (Json ex_bib)"

definition ex_review_garbled :: world where
  "ex_review_garbled =
     ex_world [ex_item] ex_both (Unparsable ''I cannot review this.'') (Json ex_bib)"

text \<open>The bibliography call would reject, and is not made: nothing is VERIFIED.\<close>

definition ex_bib_down :: world where
  "ex_bib_down = ex_world [ex_item] ex_registry_only (Json []) Rejected"

text \<open>The bibliography call answers with the four keys and empty strings.\<close>

definition ex_blank_bib_world :: world where
  "ex_blank_bib_world = ex_world [ex_item] ex_both (Json []) (Json ex_bib_blank)"

definition ex_blank_bib_result :: VerificationResult where
  "ex_blank_bib_result = ex_result [ex_fused_citation] 1 0 (Some ex_bib_blank)"

text \<open>The extraction call returns two items with the same id.\<close>

definition ex_dup_world :: world where
  "ex_dup_world = ex_world [ex_item, ex_item] ex_registry_only (Json []) (Json ex_bib)"

definition ex_dup_result :: VerificationResult where
  "ex_dup_result = ex_result [ex_api_citation, ex_api_citation] 0 2 None"



text \<open>Three items verified by both sources. The review answers for the first (as the
  prompt asks), for the second with the status it already has, and a second time for
  the first; it says nothing of the third.\<close>

definition ex_item2 :: item where
  "ex_item2 = ex_item\<lparr>item_id := Some ''2''\<rparr>"

definition ex_item3 :: item where
  "ex_item3 = ex_item\<lparr>item_id := Some ''3''\<rparr>"

definition ex_reviews :: "review list" where
  "ex_reviews =
     [ex_review,
      \<lparr>review_id = ''2'', newStatus = VERIFIED, reasoning = ''Confirmed.''\<rparr>,
      \<lparr>review_id = ''1'', newStatus = HALLUCINATION, reasoning = ''On second thought.''\<rparr>]"

definition ex_batch_world :: world where
  "ex_batch_world =
     ex_world [ex_item, ex_item2, ex_item3] ex_both (Json ex_reviews) (Json ex_bib)"

definition ex_batch_result :: VerificationResult where
  "ex_batch_result =
     ex_result [ex_reviewed_citation, ex_fused_citation\<lparr>cit_id := Some ''2''\<rparr>,
                ex_fused_citation\<lparr>cit_id := Some ''3''\<rparr>] 2 0 (Some ex_bib)"

text \<open>Two items with the ids "1" and "2"; and an item without id after one with id.\<close>

definition ex_pair_world :: world where
  "ex_pair_world = ex_world [ex_item, ex_item2] ex_registry_only (Json []) (Json ex_bib)"

definition ex_pair_result :: VerificationResult where
  "ex_pair_result =
     ex_result [ex_api_citation, ex_api_citation\<lparr>cit_id := Some ''2''\<rparr>] 0 2 None"

definition ex_anon_item :: item where
  "ex_anon_item = ex_item\<lparr>item_id := None\<rparr>"

definition ex_anon_world :: world where
  "ex_anon_world =
     ex_world [ex_item, ex_anon_item] ex_registry_only (Json []) (Json ex_bib)"

definition ex_anon_result :: VerificationResult where
  "ex_anon_result =
     ex_result [ex_api_citation, ex_api_citation\<lparr>cit_id := Some ''k3x9q2m7p1z''\<rparr>] 0 2 None"

definition ex_anon_client_result :: VerificationResult where
  "ex_anon_client_result =
     ex_result [ex_api_citation, ex_api_citation\<lparr>cit_id := Some ''k3x9q2m7p''\<rparr>] 0 2 None"









section \<open>Properties\<close>

lemmas status_defs = VERIFIED_def PARTIAL_MATCH_def UNVERIFIED_def HALLUCINATION_def PENDING_def

lemma fuse_api_table: "fuse_api r g f = fuse_table r g f"
  by (cases r; cases g; cases f) (simp_all add: fuse_api_def fuse_table_def)

lemma fuse_client_table: "fuse_client r v g f = fuse_table r g f"
  by (cases r; cases g; cases f; cases v) (simp_all add: fuse_client_def fuse_table_def)

subsection \<open>Evidence fusion\<close>

lemma verifyItem_api_fused:
  assumes "verifyItem_api a it = Inr c"
  shows "(status c, confidenceScore c) =
           fuse_api (registryMatch doiRegex a it) (groundingMatch a) (fabricationSignal a)"
  using assms
  by (auto simp: verifyItem_api_def Let_def registryMatch_def groundingMatch_def
        fabricationSignal_def responseTextOf_def
      split: sum.splits call.splits option.splits if_splits)

lemma verifyItem_client_fused:
  assumes "verifyItem_client a it = Inr c"
  shows "(status c, confidenceScore c) =
           fuse_client (registryMatch doiRegex a it)
             (includes_str (responseTextOf a) ''verified'')
             (groundingMatch a) (fabricationSignal a)"
  using assms
  by (auto simp: verifyItem_client_def Let_def registryMatch_def groundingMatch_def
        fabricationSignal_def responseTextOf_def Suc_le_eq
      split: sum.splits call.splits option.splits if_splits)

lemma verifyItem_legacy_fused:
  assumes "verifyItem_legacy a it = Inr c"
  shows "(status c, confidenceScore c) =
           fuse_legacy (includes_str (responseTextOf a) ''hallucination'')
             (registryMatch doiRegex_legacy a it)
             (includes_str (responseTextOf a) ''verified'')"
  using assms
  by (auto simp: verifyItem_legacy_def Let_def registryMatch_def responseTextOf_def
      split: sum.splits call.splits option.splits if_splits)

text \<open>
  C1, as amended. In \<^verbatim>\<open>api/verify.ts\<close> and in \<^verbatim>\<open>src/services/geminiService.ts\<close> the status
  and the confidence of every citation are the table's value at the three signals
  (registry match, grounding match, fabrication marker). In the third file they are not:
  there the word "hallucination" gives (HALLUCINATION, 0.95), otherwise a registry match
  or the word "verified" gives (VERIFIED, 0.98), otherwise (UNVERIFIED, 0.5).
\<close>

theorem fusion_table:
  "(verifyItem_api a it = Inr c \<longrightarrow>
      (status c, confidenceScore c) =
        fuse_table (registryMatch doiRegex a it) (groundingMatch a) (fabricationSignal a))
   \<and> (verifyItem_client a it = Inr c \<longrightarrow>
      (status c, confidenceScore c) =
        fuse_table (registryMatch doiRegex a it) (groundingMatch a) (fabricationSignal a))
   \<and> (verifyItem_legacy a it = Inr c \<longrightarrow>
      (status c, confidenceScore c) =
        (if includes_str (responseTextOf a) ''hallucination'' then (HALLUCINATION, 0.95)
         else if registryMatch doiRegex_legacy a it
                 \<or> includes_str (responseTextOf a) ''verified''
              then (VERIFIED, 0.98)
         else (UNVERIFIED, 0.5)))"
  using verifyItem_api_fused [of a it c] verifyItem_client_fused [of a it c]
    verifyItem_legacy_fused [of a it c]
  by (simp add: fuse_api_table fuse_client_table fuse_legacy_def)

theorem fusion_table_witness:
  "verifyItem_api ex_registry_only ex_item = Inr ex_api_citation
   \<and> (status ex_api_citation, confidenceScore ex_api_citation) =
       fuse_table (registryMatch doiRegex ex_registry_only ex_item)
         (groundingMatch ex_registry_only) (fabricationSignal ex_registry_only)
   \<and> verifyItem_client ex_registry_only ex_item = Inr ex_api_citation
   \<and> verifyItem_legacy ex_registry_only ex_item = Inr ex_legacy_citation
   \<and> (status ex_legacy_citation, confidenceScore ex_legacy_citation) =
       (if includes_str (responseTextOf ex_registry_only) ''hallucination''
        then (HALLUCINATION, 0.95)
        else if registryMatch doiRegex_legacy ex_registry_only ex_item
                \<or> includes_str (responseTextOf ex_registry_only) ''verified''
             then (VERIFIED, 0.98)
        else (UNVERIFIED, 0.5))"
proof -
  have a: "verifyItem_api ex_registry_only ex_item = Inr ex_api_citation"
    by code_simp
  have b: "verifyItem_client ex_registry_only ex_item = Inr ex_api_citation"
    by code_simp
  have c: "verifyItem_legacy ex_registry_only ex_item = Inr ex_legacy_citation"
    by code_simp
  show ?thesis
    using a b c fusion_table [of ex_registry_only ex_item ex_api_citation]
      fusion_table [of ex_registry_only ex_item ex_legacy_citation]
    by simp
qed

text \<open>
  The claim as stated fails in the third file: with a registry match, no grounding
  reference and no fabrication marker the table asks for (PARTIAL_MATCH, 0.75), the code
  gives (VERIFIED, 0.98).
\<close>

theorem fusion_table_counterexample:
  "verifyItem_legacy ex_registry_only ex_item = Inr ex_legacy_citation
   \<and> (status ex_legacy_citation, confidenceScore ex_legacy_citation) = (VERIFIED, 0.98)
   \<and> fuse_table (registryMatch doiRegex_legacy ex_registry_only ex_item)
        (groundingMatch ex_registry_only) (fabricationSignal ex_registry_only)
      = (PARTIAL_MATCH, 0.75)
   \<and> (VERIFIED, 0.98 :: real) \<noteq> (PARTIAL_MATCH, 0.75)"
  by code_simp

subsection \<open>The loop and the shape of a result\<close>

lemma verifyLoop_length:
  "verifyLoop v ans i its = Inr cs \<Longrightarrow> length cs = length its"
  by (induction its arbitrary: i cs) (auto split: sum.splits)

lemma verifyLoop_nth:
  "verifyLoop v ans i its = Inr cs \<Longrightarrow> k < length its \<Longrightarrow> v (ans (i + k)) (its ! k) = Inr (cs ! k)"
proof (induction its arbitrary: i cs k)
  case Nil
  then show ?case by simp
next
  case (Cons it its)
  from Cons.prems(1) obtain c cs' where
    c: "v (ans i) it = Inr c" and cs': "verifyLoop v ans (Suc i) its = Inr cs'"
    and cs: "cs = c # cs'"
    by (auto split: sum.splits)
  show ?case
  proof (cases k)
    case 0
    with c cs show ?thesis by simp
  next
    case (Suc j)
    with Cons.prems(2) have "j < length its" by simp
    from Cons.IH [OF cs' this] Suc cs show ?thesis by simp
  qed
qed

lemma verifyLoop_all:
  assumes "verifyLoop v ans i its = Inr cs"
    and "\<And>a it c. v a it = Inr c \<Longrightarrow> P c"
  shows "\<forall>c\<in>set cs. P c"
  using assms(1)
  by (induction its arbitrary: i cs) (auto split: sum.splits dest: assms(2))

lemma api_result:
  assumes "parseAndVerifyCitations_api w t = Inr r"
  obtains items where "extraction w t = Json items"
    and "verifyLoop verifyItem_api (answer w) 0 items = Inr (citations r)"
    and "renderBibliography w (filter (\<lambda>c. status c = VERIFIED) (citations r)) = Inr (multiStyleBib r)"
    and "summary r = \<lparr>total_n = length (citations r),
            verified = length (filter (\<lambda>c. status c = VERIFIED) (citations r)),
            hallucinated = countStatus (\<lambda>s. s = HALLUCINATION) (citations r),
            unverified = countStatus (\<lambda>s. s = UNVERIFIED \<or> s = PARTIAL_MATCH) (citations r)\<rparr>"
  using assms
  by (auto simp: parseAndVerifyCitations_api_def parsedResponse_def Let_def
      split: json_call.splits sum.splits)

lemma legacy_result:
  assumes "parseAndVerifyCitations_legacy w t = Inr r"
  obtains items where "extraction w t = Json items"
    and "verifyLoop verifyItem_legacy (answer w) 0 items = Inr (citations r)"
    and "renderBibliography w (filter (\<lambda>c. status c = VERIFIED) (citations r)) = Inr (multiStyleBib r)"
    and "summary r = \<lparr>total_n = length (citations r),
            verified = length (filter (\<lambda>c. status c = VERIFIED) (citations r)),
            hallucinated = countStatus (\<lambda>s. s = HALLUCINATION) (citations r),
            unverified = countStatus (\<lambda>s. s = UNVERIFIED) (citations r)\<rparr>"
  using assms
  by (auto simp: parseAndVerifyCitations_legacy_def parsedResponse_def Let_def
      split: json_call.splits sum.splits)

lemma client_result:
  assumes "parseAndVerifyCitations_client w t = Inr r"
  obtains items fused reviews where "ai w" and "extraction w t = Json items"
    and "verifyLoop verifyItem_client (answer w) 0 items = Inr fused"
    and "review_call w = Json reviews"
    and "citations r = map (applyReview reviews) fused"
    and "renderBibliography w (filter (\<lambda>c. status c = VERIFIED) (citations r)) = Inr (multiStyleBib r)"
    and "summary r = \<lparr>total_n = length (citations r),
            verified = countStatus (\<lambda>s. s = VERIFIED) (citations r),
            hallucinated = countStatus (\<lambda>s. s = HALLUCINATION) (citations r),
            unverified = countStatus (\<lambda>s. s = UNVERIFIED \<or> s = PARTIAL_MATCH) (citations r)\<rparr>"
  using assms
  by (auto simp: parseAndVerifyCitations_client_def parsedResponse_def Let_def
      split: json_call.splits sum.splits if_splits)

lemma legacy_status:
  assumes "verifyItem_legacy a it = Inr c"
  shows "status c \<noteq> PARTIAL_MATCH"
  using verifyItem_legacy_fused [OF assms]
  by (auto simp: fuse_legacy_def status_defs split: if_splits)

text \<open>
  C2. In every result that one of the three pipelines returns, the summary is the
  projection of the final statuses: the total is the number of citations, and the three
  counts are the numbers of citations that are VERIFIED, that are HALLUCINATION, and
  that are UNVERIFIED or PARTIAL_MATCH. (The third file counts UNVERIFIED only, and
  never produces PARTIAL_MATCH.)
\<close>

theorem summary_projection:
  assumes "parseAndVerifyCitations_api w t = Inr r
           \<or> parseAndVerifyCitations_client w t = Inr r
           \<or> parseAndVerifyCitations_legacy w t = Inr r"
  shows "total_n (summary r) = length (citations r)
     \<and> verified (summary r) = length (filter (\<lambda>c. status c = VERIFIED) (citations r))
     \<and> hallucinated (summary r) = length (filter (\<lambda>c. status c = HALLUCINATION) (citations r))
     \<and> unverified (summary r) =
         length (filter (\<lambda>c. status c = UNVERIFIED \<or> status c = PARTIAL_MATCH) (citations r))"
proof -
  consider (api) "parseAndVerifyCitations_api w t = Inr r"
    | (client) "parseAndVerifyCitations_client w t = Inr r"
    | (legacy) "parseAndVerifyCitations_legacy w t = Inr r"
    using assms by blast
  then show ?thesis
  proof cases
    case api
    then show ?thesis by (elim api_result) (simp add: countStatus_def)
  next
    case client
    then show ?thesis by (elim client_result) (simp add: countStatus_def)
  next
    case legacy
    then obtain items where
      loop: "verifyLoop verifyItem_legacy (answer w) 0 items = Inr (citations r)"
      and s: "summary r = \<lparr>total_n = length (citations r),
            verified = length (filter (\<lambda>c. status c = VERIFIED) (citations r)),
            hallucinated = countStatus (\<lambda>s. s = HALLUCINATION) (citations r),
            unverified = countStatus (\<lambda>s. s = UNVERIFIED) (citations r)\<rparr>"
      by (elim legacy_result)
    have "\<forall>c\<in>set (citations r). status c \<noteq> PARTIAL_MATCH"
      by (rule verifyLoop_all [OF loop]) (rule legacy_status)
    then have "filter (\<lambda>c. status c = UNVERIFIED \<or> status c = PARTIAL_MATCH) (citations r)
               = filter (\<lambda>c. status c = UNVERIFIED) (citations r)"
      by (intro filter_cong) auto
    with s show ?thesis by (simp add: countStatus_def)
  qed
qed

theorem summary_projection_witness:
  "parseAndVerifyCitations_api ex_plain_world ''t''
     = Inr ex_plain_result
   \<and> unverified (summary ex_plain_result) =
       length (filter (\<lambda>c. status c = UNVERIFIED \<or> status c = PARTIAL_MATCH)
                 (citations ex_plain_result))
   \<and> parseAndVerifyCitations_legacy
         ex_plain_world ''t''
     = Inr ex_legacy_result
   \<and> verified (summary ex_legacy_result) =
       length (filter (\<lambda>c. status c = VERIFIED)
                 (citations ex_legacy_result))"
proof -
  have a: "parseAndVerifyCitations_api
             ex_plain_world ''t''
           = Inr ex_plain_result"
    by code_simp
  have b: "parseAndVerifyCitations_legacy
             ex_plain_world ''t''
           = Inr ex_legacy_result"
    by code_simp
  show ?thesis
    using a b summary_projection [OF disjI1, OF a]
      summary_projection [OF disjI2, OF disjI2, OF b]
    by simp
qed

subsection \<open>The skeptic review\<close>

lemma applyReview_cases:
  obtains (unchanged) "applyReview reviews c = c"
  | (applied) rv where "rv \<in> set reviews" "Some (review_id rv) = cit_id c"
      "newStatus rv \<noteq> status c"
      "applyReview reviews c =
         c\<lparr>status := newStatus rv,
           explanation := explanation c @ [CHR 0x0A, CHR 0x0A] @ ''[Skeptic Review]: ''
                            @ reasoning rv\<rparr>"
proof (cases "find (\<lambda>r. Some (review_id r) = cit_id c) reviews")
  case None
  then show ?thesis by (intro unchanged) (simp add: applyReview_def)
next
  case (Some rv)
  then have in_set: "rv \<in> set reviews" and same: "Some (review_id rv) = cit_id c"
    by (auto simp: find_Some_iff)
  show ?thesis
  proof (cases "newStatus rv = status c")
    case True
    with Some show ?thesis by (intro unchanged) (simp add: applyReview_def)
  next
    case False
    with Some in_set same show ?thesis by (intro applied [of rv]) (simp_all add: applyReview_def)
  qed
qed

lemma applyReview_absent:
  assumes "\<forall>rv\<in>set reviews. Some (review_id rv) \<noteq> cit_id c"
  shows "applyReview reviews c = c"
proof -
  have "find (\<lambda>r. Some (review_id r) = cit_id c) reviews = None"
    using assms by (simp add: find_None_iff)
  then show ?thesis by (simp add: applyReview_def)
qed

lemma applyReview_policy:
  "(applyReview reviews c \<noteq> c \<longrightarrow>
      (\<exists>rv\<in>set reviews. Some (review_id rv) = cit_id c \<and> newStatus rv \<noteq> status c
         \<and> status (applyReview reviews c) = newStatus rv
         \<and> explanation (applyReview reviews c) =
             explanation c @ [CHR 0x0A, CHR 0x0A] @ ''[Skeptic Review]: '' @ reasoning rv))
   \<and> prefix (explanation c) (explanation (applyReview reviews c))
   \<and> ((\<forall>rv\<in>set reviews. Some (review_id rv) \<noteq> cit_id c) \<longrightarrow>
        status (applyReview reviews c) = status c
        \<and> explanation (applyReview reviews c) = explanation c)"
proof (cases reviews c rule: applyReview_cases)
  case unchanged
  then show ?thesis by simp
next
  case (applied rv)
  then show ?thesis by auto
qed

lemma applyReview_frame:
  "cit_id (applyReview reviews c) = cit_id c
   \<and> rawText (applyReview reviews c) = rawText c
   \<and> parsedMetadata (applyReview reviews c) = parsedMetadata c
   \<and> confidenceScore (applyReview reviews c) = confidenceScore c
   \<and> sourceUrl (applyReview reviews c) = sourceUrl c
   \<and> verificationSource (applyReview reviews c) = verificationSource c"
  by (cases reviews c rule: applyReview_cases) simp_all

lemma client_verified_confidence:
  assumes "verifyItem_client a it = Inr c" and "status c = VERIFIED"
  shows "confidenceScore c = 0.99"
proof -
  have "(status c, confidenceScore c) =
          fuse_table (registryMatch doiRegex a it) (groundingMatch a) (fabricationSignal a)"
    using verifyItem_client_fused [OF assms(1)] by (simp add: fuse_client_table)
  with assms(2) show ?thesis
    by (auto simp: fuse_table_def status_defs split: if_splits)
qed

lemma applyReview_first:
  assumes "j < length reviews"
    and "Some (review_id (reviews ! j)) = cit_id c"
    and "\<forall>k<j. Some (review_id (reviews ! k)) \<noteq> cit_id c"
  shows "applyReview reviews c =
           (if newStatus (reviews ! j) \<noteq> status c
            then c\<lparr>status := newStatus (reviews ! j),
                   explanation := explanation c @ [CHR 0x0A, CHR 0x0A] @ ''[Skeptic Review]: ''
                                    @ reasoning (reviews ! j)\<rparr>
            else c)"
proof -
  have "find (\<lambda>r. Some (review_id r) = cit_id c) reviews = Some (reviews ! j)"
    unfolding find_Some_iff using assms by blast
  then show ?thesis by (simp add: applyReview_def)
qed

text \<open>
  C4. In every result of the pipeline with the review step, position by position against
  the fused batch: a citation that the review changed has a review with its id whose
  status differs from the fused status, it has that review's status, and its
  explanation is the fused explanation followed by the separator and the reasoning; the
  fused explanation is a prefix of the final one in every case; a citation whose id
  no review carries keeps its status and its explanation; and the first review that
  carries the id of a citation decides: when its status differs from the fused one, the
  citation takes that status and the reasoning is appended, and when it is the same the
  citation stays as it is.
\<close>

theorem review_policy:
  assumes "parseAndVerifyCitations_client w t = Inr r"
  shows "\<exists>items fused reviews.
           extraction w t = Json items
           \<and> verifyLoop verifyItem_client (answer w) 0 items = Inr fused
           \<and> review_call w = Json reviews
           \<and> length (citations r) = length fused
           \<and> (\<forall>i<length fused.
                 (citations r ! i \<noteq> fused ! i \<longrightarrow>
                    (\<exists>rv\<in>set reviews.
                        Some (review_id rv) = cit_id (fused ! i)
                        \<and> newStatus rv \<noteq> status (fused ! i)
                        \<and> status (citations r ! i) = newStatus rv
                        \<and> explanation (citations r ! i) =
                            explanation (fused ! i) @ [CHR 0x0A, CHR 0x0A]
                              @ ''[Skeptic Review]: '' @ reasoning rv))
                 \<and> prefix (explanation (fused ! i)) (explanation (citations r ! i))
                 \<and> ((\<forall>rv\<in>set reviews. Some (review_id rv) \<noteq> cit_id (fused ! i)) \<longrightarrow>
                      status (citations r ! i) = status (fused ! i)
                      \<and> explanation (citations r ! i) = explanation (fused ! i))
                 \<and> (\<forall>j<length reviews.
                       Some (review_id (reviews ! j)) = cit_id (fused ! i)
                       \<and> (\<forall>k<j. Some (review_id (reviews ! k)) \<noteq> cit_id (fused ! i)) \<longrightarrow>
                       citations r ! i =
                         (if newStatus (reviews ! j) \<noteq> status (fused ! i)
                          then (fused ! i)
                                 \<lparr>status := newStatus (reviews ! j),
                                  explanation :=
                                    explanation (fused ! i) @ [CHR 0x0A, CHR 0x0A]
                                      @ ''[Skeptic Review]: '' @ reasoning (reviews ! j)\<rparr>
                          else fused ! i)))"
proof -
  from assms obtain items fused reviews where
    ex: "extraction w t = Json items"
    and loop: "verifyLoop verifyItem_client (answer w) 0 items = Inr fused"
    and rv: "review_call w = Json reviews"
    and cs: "citations r = map (applyReview reviews) fused"
    by (elim client_result)
  have len: "length (citations r) = length fused"
    using cs by simp
  have each: "(citations r ! i \<noteq> fused ! i \<longrightarrow>
            (\<exists>rv\<in>set reviews.
                Some (review_id rv) = cit_id (fused ! i)
                \<and> newStatus rv \<noteq> status (fused ! i)
                \<and> status (citations r ! i) = newStatus rv
                \<and> explanation (citations r ! i) =
                    explanation (fused ! i) @ [CHR 0x0A, CHR 0x0A]
                      @ ''[Skeptic Review]: '' @ reasoning rv))
         \<and> prefix (explanation (fused ! i)) (explanation (citations r ! i))
         \<and> ((\<forall>rv\<in>set reviews. Some (review_id rv) \<noteq> cit_id (fused ! i)) \<longrightarrow>
              status (citations r ! i) = status (fused ! i)
              \<and> explanation (citations r ! i) = explanation (fused ! i))
         \<and> (\<forall>j<length reviews.
               Some (review_id (reviews ! j)) = cit_id (fused ! i)
               \<and> (\<forall>k<j. Some (review_id (reviews ! k)) \<noteq> cit_id (fused ! i)) \<longrightarrow>
               citations r ! i =
                 (if newStatus (reviews ! j) \<noteq> status (fused ! i)
                  then (fused ! i)
                         \<lparr>status := newStatus (reviews ! j),
                          explanation :=
                            explanation (fused ! i) @ [CHR 0x0A, CHR 0x0A]
                              @ ''[Skeptic Review]: '' @ reasoning (reviews ! j)\<rparr>
                  else fused ! i))"
    if i: "i < length fused" for i
  proof -
    have eq: "citations r ! i = applyReview reviews (fused ! i)"
      using cs i by simp
    have first: "\<forall>j<length reviews.
               Some (review_id (reviews ! j)) = cit_id (fused ! i)
               \<and> (\<forall>k<j. Some (review_id (reviews ! k)) \<noteq> cit_id (fused ! i)) \<longrightarrow>
               applyReview reviews (fused ! i) =
                 (if newStatus (reviews ! j) \<noteq> status (fused ! i)
                  then (fused ! i)
                         \<lparr>status := newStatus (reviews ! j),
                          explanation :=
                            explanation (fused ! i) @ [CHR 0x0A, CHR 0x0A]
                              @ ''[Skeptic Review]: '' @ reasoning (reviews ! j)\<rparr>
                  else fused ! i)"
      using applyReview_first [of _ reviews "fused ! i"] by blast
    show ?thesis
      unfolding eq using applyReview_policy [of reviews "fused ! i"] first by blast
  qed
  show ?thesis
    using ex loop rv len each by blast
qed

theorem review_policy_witness:
  "parseAndVerifyCitations_client ex_batch_world ''t''
     = Inr ex_batch_result
   \<and> (\<exists>items fused reviews.
           extraction ex_batch_world ''t'' = Json items
           \<and> verifyLoop verifyItem_client (answer ex_batch_world) 0 items = Inr fused
           \<and> review_call ex_batch_world = Json reviews
           \<and> length (citations ex_batch_result) = length fused
           \<and> (\<forall>i<length fused.
                 (citations ex_batch_result ! i \<noteq> fused ! i \<longrightarrow>
                    (\<exists>rv\<in>set reviews.
                        Some (review_id rv) = cit_id (fused ! i)
                        \<and> newStatus rv \<noteq> status (fused ! i)
                        \<and> status (citations ex_batch_result ! i) = newStatus rv
                        \<and> explanation (citations ex_batch_result ! i) =
                            explanation (fused ! i) @ [CHR 0x0A, CHR 0x0A]
                              @ ''[Skeptic Review]: '' @ reasoning rv))
                 \<and> prefix (explanation (fused ! i)) (explanation (citations ex_batch_result ! i))
                 \<and> ((\<forall>rv\<in>set reviews. Some (review_id rv) \<noteq> cit_id (fused ! i)) \<longrightarrow>
                      status (citations ex_batch_result ! i) = status (fused ! i)
                      \<and> explanation (citations ex_batch_result ! i) = explanation (fused ! i))
                 \<and> (\<forall>j<length reviews.
                       Some (review_id (reviews ! j)) = cit_id (fused ! i)
                       \<and> (\<forall>k<j. Some (review_id (reviews ! k)) \<noteq> cit_id (fused ! i)) \<longrightarrow>
                       citations ex_batch_result ! i =
                         (if newStatus (reviews ! j) \<noteq> status (fused ! i)
                          then (fused ! i)
                                 \<lparr>status := newStatus (reviews ! j),
                                  explanation :=
                                    explanation (fused ! i) @ [CHR 0x0A, CHR 0x0A]
                                      @ ''[Skeptic Review]: '' @ reasoning (reviews ! j)\<rparr>
                          else fused ! i))))
   \<and> map status (citations ex_batch_result) = [''UNVERIFIABLE'', VERIFIED, VERIFIED]"
proof -
  have h: "parseAndVerifyCitations_client ex_batch_world ''t''
           = Inr ex_batch_result"
    by code_simp
  have s: "map status (citations ex_batch_result) = [''UNVERIFIABLE'', VERIFIED, VERIFIED]"
    by code_simp
  show ?thesis
    by (rule conjI [OF h conjI [OF review_policy [OF h] s]])
qed

text \<open>
  C10. The review changes the status and the explanation only: position by position,
  the id, the raw text, the parsed metadata, the confidence score, the source URL and the
  verification source of a final citation are those of the fused one; so a citation that
  was fused as VERIFIED has the confidence 0.99 in the result, whatever its final status.
\<close>

theorem review_frame:
  assumes "parseAndVerifyCitations_client w t = Inr r"
  shows "\<exists>items fused reviews.
           extraction w t = Json items
           \<and> verifyLoop verifyItem_client (answer w) 0 items = Inr fused
           \<and> review_call w = Json reviews
           \<and> length (citations r) = length fused
           \<and> (\<forall>i<length fused.
                 cit_id (citations r ! i) = cit_id (fused ! i)
                 \<and> rawText (citations r ! i) = rawText (fused ! i)
                 \<and> parsedMetadata (citations r ! i) = parsedMetadata (fused ! i)
                 \<and> confidenceScore (citations r ! i) = confidenceScore (fused ! i)
                 \<and> sourceUrl (citations r ! i) = sourceUrl (fused ! i)
                 \<and> verificationSource (citations r ! i) = verificationSource (fused ! i)
                 \<and> (status (fused ! i) = VERIFIED \<longrightarrow> confidenceScore (citations r ! i) = 0.99))"
proof -
  from assms obtain items fused reviews where
    ex: "extraction w t = Json items"
    and loop: "verifyLoop verifyItem_client (answer w) 0 items = Inr fused"
    and rv: "review_call w = Json reviews"
    and cs: "citations r = map (applyReview reviews) fused"
    by (elim client_result)
  have len: "length fused = length items"
    using loop by (rule verifyLoop_length)
  have "\<forall>i<length fused.
                 cit_id (citations r ! i) = cit_id (fused ! i)
                 \<and> rawText (citations r ! i) = rawText (fused ! i)
                 \<and> parsedMetadata (citations r ! i) = parsedMetadata (fused ! i)
                 \<and> confidenceScore (citations r ! i) = confidenceScore (fused ! i)
                 \<and> sourceUrl (citations r ! i) = sourceUrl (fused ! i)
                 \<and> verificationSource (citations r ! i) = verificationSource (fused ! i)
                 \<and> (status (fused ! i) = VERIFIED \<longrightarrow> confidenceScore (citations r ! i) = 0.99)"
  proof (intro allI impI)
    fix i assume i: "i < length fused"
    then have eq: "citations r ! i = applyReview reviews (fused ! i)"
      using cs by simp
    have "verifyItem_client (answer w (0 + i)) (items ! i) = Inr (fused ! i)"
      using verifyLoop_nth [OF loop] i len by simp
    then have "status (fused ! i) = VERIFIED \<longrightarrow> confidenceScore (fused ! i) = 0.99"
      using client_verified_confidence by blast
    then show "cit_id (citations r ! i) = cit_id (fused ! i)
                 \<and> rawText (citations r ! i) = rawText (fused ! i)
                 \<and> parsedMetadata (citations r ! i) = parsedMetadata (fused ! i)
                 \<and> confidenceScore (citations r ! i) = confidenceScore (fused ! i)
                 \<and> sourceUrl (citations r ! i) = sourceUrl (fused ! i)
                 \<and> verificationSource (citations r ! i) = verificationSource (fused ! i)
                 \<and> (status (fused ! i) = VERIFIED \<longrightarrow> confidenceScore (citations r ! i) = 0.99)"
      using applyReview_frame [of reviews "fused ! i"] eq by simp
  qed
  moreover have "length (citations r) = length fused"
    using cs by simp
  ultimately show ?thesis
    using ex loop rv by blast
qed

theorem review_frame_witness:
  "parseAndVerifyCitations_client ex_review_world ''t''
     = Inr ex_review_result
   \<and> (\<exists>items fused reviews.
           extraction ex_review_world ''t'' = Json items
           \<and> verifyLoop verifyItem_client (answer ex_review_world) 0 items = Inr fused
           \<and> review_call ex_review_world = Json reviews
           \<and> length (citations ex_review_result) = length fused
           \<and> (\<forall>i<length fused.
                 cit_id (citations ex_review_result ! i) = cit_id (fused ! i)
                 \<and> rawText (citations ex_review_result ! i) = rawText (fused ! i)
                 \<and> parsedMetadata (citations ex_review_result ! i) = parsedMetadata (fused ! i)
                 \<and> confidenceScore (citations ex_review_result ! i) = confidenceScore (fused ! i)
                 \<and> sourceUrl (citations ex_review_result ! i) = sourceUrl (fused ! i)
                 \<and> verificationSource (citations ex_review_result ! i) = verificationSource (fused ! i)
                 \<and> (status (fused ! i) = VERIFIED \<longrightarrow> confidenceScore (citations ex_review_result ! i) = 0.99)))"
proof -
  have h: "parseAndVerifyCitations_client ex_review_world ''t''
           = Inr ex_review_result"
    by code_simp
  show ?thesis
    by (rule conjI [OF h review_frame [OF h]])
qed

text \<open>
  C3 fails in the pipeline with the review step. The review prompt asks for the status
  \<^verbatim>\<open>'UNVERIFIABLE'\<close>, the enumeration has \<^verbatim>\<open>UNVERIFIED\<close>, and the status of a review is
  stored unchecked: a review that answers as asked leaves a status in the result that is
  none of the four, and that no count of the summary covers; a review that answers
  PENDING leaves PENDING in the result.
\<close>

theorem review_status_outside_enum:
  "parseAndVerifyCitations_client ex_review_world ''t'' = Inr ex_review_result
   \<and> map status (citations ex_review_result) = [''UNVERIFIABLE'']
   \<and> ''UNVERIFIABLE'' \<notin> {VERIFIED, PARTIAL_MATCH, UNVERIFIED, HALLUCINATION}
   \<and> status ex_fused_citation = VERIFIED
   \<and> parseAndVerifyCitations_client ex_pending_world ''t'' = Inr ex_pending_result
   \<and> map status (citations ex_pending_result) = [PENDING]
   \<and> PENDING \<notin> {VERIFIED, PARTIAL_MATCH, UNVERIFIED, HALLUCINATION}"
  by code_simp

text \<open>Without the review step the statuses stay within the four values.\<close>

lemma statuses_without_review:
  assumes "parseAndVerifyCitations_api w t = Inr r \<or> parseAndVerifyCitations_legacy w t = Inr r"
  shows "\<forall>c\<in>set (citations r).
           status c \<in> {VERIFIED, PARTIAL_MATCH, UNVERIFIED, HALLUCINATION}"
  using assms
proof
  assume "parseAndVerifyCitations_api w t = Inr r"
  then obtain items where
    loop: "verifyLoop verifyItem_api (answer w) 0 items = Inr (citations r)"
    by (elim api_result)
  show ?thesis
  proof (rule verifyLoop_all [OF loop])
    fix a it c assume "verifyItem_api a it = Inr c"
    from verifyItem_api_fused [OF this]
    show "status c \<in> {VERIFIED, PARTIAL_MATCH, UNVERIFIED, HALLUCINATION}"
      by (auto simp: fuse_api_table fuse_table_def split: if_splits)
  qed
next
  assume "parseAndVerifyCitations_legacy w t = Inr r"
  then obtain items where
    loop: "verifyLoop verifyItem_legacy (answer w) 0 items = Inr (citations r)"
    by (elim legacy_result)
  show ?thesis
  proof (rule verifyLoop_all [OF loop])
    fix a it c assume "verifyItem_legacy a it = Inr c"
    from verifyItem_legacy_fused [OF this]
    show "status c \<in> {VERIFIED, PARTIAL_MATCH, UNVERIFIED, HALLUCINATION}"
      by (auto simp: fuse_legacy_def split: if_splits)
  qed
qed

subsection \<open>Failures of the review and of the bibliography\<close>

lemma renderBibliography_cases:
  assumes "renderBibliography w vs = Inr b"
  shows "(vs = [] \<and> b = None) \<or> (vs \<noteq> [] \<and> (\<exists>obj. b = Some obj \<and> bibliography w = Json obj))"
  using assms
  by (auto simp: renderBibliography_def parsedResponse_def split: if_splits sum.splits json_call.splits)

text \<open>
  C5, as amended. Nothing recovers from a failure of the review call or of the
  bibliography call: the error leaves \<^verbatim>\<open>parseAndVerifyCitations\<close>. When the review call
  rejects or its text is not JSON, the pipeline returns no result, and after a successful
  extraction and verification loop it ends with that very error. When the bibliography
  call rejects or its text is not JSON, a result is returned only if the call was never
  made, that is, if no citation is VERIFIED; the result then has no bibliography.
\<close>

theorem optional_step_failure_fatal:
  "((review_call w = Rejected \<or> review_call w = Unparsable s) \<longrightarrow>
      (\<forall>r. parseAndVerifyCitations_client w t \<noteq> Inr r))
   \<and> ((review_call w = Rejected \<or> review_call w = Unparsable s)
        \<and> ai w \<and> extraction w t = Json items
        \<and> verifyLoop verifyItem_client (answer w) 0 items = Inr fused \<longrightarrow>
      parseAndVerifyCitations_client w t =
        Inl (if review_call w = Rejected then UpstreamError else SyntaxError))
   \<and> ((bibliography w = Rejected \<or> bibliography w = Unparsable s)
        \<and> parseAndVerifyCitations_client w t = Inr r \<longrightarrow>
      verified (summary r) = 0 \<and> multiStyleBib r = None)"
proof (intro conjI impI)
  assume "review_call w = Rejected \<or> review_call w = Unparsable s"
  then show "\<forall>r. parseAndVerifyCitations_client w t \<noteq> Inr r"
    by (auto elim!: client_result)
next
  assume "(review_call w = Rejected \<or> review_call w = Unparsable s)
        \<and> ai w \<and> extraction w t = Json items
        \<and> verifyLoop verifyItem_client (answer w) 0 items = Inr fused"
  then show "parseAndVerifyCitations_client w t =
        Inl (if review_call w = Rejected then UpstreamError else SyntaxError)"
    by (auto simp: parseAndVerifyCitations_client_def parsedResponse_def)
next
  assume a: "(bibliography w = Rejected \<or> bibliography w = Unparsable s)
        \<and> parseAndVerifyCitations_client w t = Inr r"
  then have "renderBibliography w (filter (\<lambda>c. status c = VERIFIED) (citations r)) = Inr (multiStyleBib r)
        \<and> verified (summary r) = length (filter (\<lambda>c. status c = VERIFIED) (citations r))"
    by (elim conjE client_result) (simp add: countStatus_def)
  then show "verified (summary r) = 0"
    using a renderBibliography_cases [of w "filter (\<lambda>c. status c = VERIFIED) (citations r)" "multiStyleBib r"]
    by auto
  from \<open>renderBibliography w (filter (\<lambda>c. status c = VERIFIED) (citations r)) = Inr (multiStyleBib r)
        \<and> verified (summary r) = length (filter (\<lambda>c. status c = VERIFIED) (citations r))\<close>
  show "multiStyleBib r = None"
    using a renderBibliography_cases [of w "filter (\<lambda>c. status c = VERIFIED) (citations r)" "multiStyleBib r"]
    by auto
qed

theorem optional_step_failure_fatal_witness:
  "review_call ex_review_down = Rejected
   \<and> (\<forall>r. parseAndVerifyCitations_client ex_review_down ''t'' \<noteq> Inr r)
   \<and> bibliography ex_bib_down = Rejected
   \<and> parseAndVerifyCitations_client ex_bib_down ''t'' = Inr ex_plain_result
   \<and> verified (summary ex_plain_result) = 0
   \<and> multiStyleBib ex_plain_result = None"
proof -
  have a: "review_call ex_review_down = Rejected"
    by (simp add: ex_review_down_def ex_world_def)
  have b: "bibliography ex_bib_down = Rejected"
    by (simp add: ex_bib_down_def ex_world_def)
  have c: "parseAndVerifyCitations_client ex_bib_down ''t'' = Inr ex_plain_result"
    by code_simp
  have "\<forall>r. parseAndVerifyCitations_client ex_review_down ''t'' \<noteq> Inr r"
    using a optional_step_failure_fatal [where w = ex_review_down and t = "''t''"] by blast
  moreover have "verified (summary ex_plain_result) = 0 \<and> multiStyleBib ex_plain_result = None"
    using b c optional_step_failure_fatal
      [where w = ex_bib_down and t = "''t''" and r = ex_plain_result]
    by blast
  ultimately show ?thesis
    using a b c by blast
qed

text \<open>
  The claim as stated fails: the verification loop has fused the batch, the review call
  rejects (or answers with text that is not JSON), and the pipeline ends with the error
  instead of a result with the fused statuses.
\<close>

theorem review_failure_counterexample:
  "verifyLoop verifyItem_client (answer ex_review_down) 0 [ex_item] = Inr [ex_fused_citation]
   \<and> review_call ex_review_down = Rejected
   \<and> parseAndVerifyCitations_client ex_review_down ''t'' = Inl UpstreamError
   \<and> parseAndVerifyCitations_client ex_review_garbled ''t'' = Inl SyntaxError"
  by code_simp

text \<open>
  C6, as amended. In every result that one of the three pipelines returns, the
  bibliography is present exactly when the summary counts at least one VERIFIED
  citation; when present it is the object that the text of the bibliography call parsed
  to, whatever its keys and values are.
\<close>

theorem bibliography_presence:
  assumes "parseAndVerifyCitations_api w t = Inr r
           \<or> parseAndVerifyCitations_client w t = Inr r
           \<or> parseAndVerifyCitations_legacy w t = Inr r"
  shows "(multiStyleBib r \<noteq> None \<longleftrightarrow> verified (summary r) > 0)
         \<and> (\<forall>b. multiStyleBib r = Some b \<longrightarrow> bibliography w = Json b)"
proof -
  have "renderBibliography w (filter (\<lambda>c. status c = VERIFIED) (citations r)) = Inr (multiStyleBib r)
        \<and> verified (summary r) = length (filter (\<lambda>c. status c = VERIFIED) (citations r))"
    using assms
    by (elim disjE api_result client_result legacy_result) (simp_all add: countStatus_def)
  then show ?thesis
    using renderBibliography_cases [of w "filter (\<lambda>c. status c = VERIFIED) (citations r)" "multiStyleBib r"]
    by auto
qed

theorem bibliography_presence_witness:
  "parseAndVerifyCitations_legacy ex_plain_world ''t'' = Inr ex_legacy_result
   \<and> (multiStyleBib ex_legacy_result \<noteq> None \<longleftrightarrow> verified (summary ex_legacy_result) > 0)
   \<and> bibliography ex_plain_world = Json ex_bib"
proof -
  have a: "parseAndVerifyCitations_legacy ex_plain_world ''t'' = Inr ex_legacy_result"
    by code_simp
  have b: "multiStyleBib ex_legacy_result = Some ex_bib"
    by (simp add: ex_legacy_result_def ex_result_def)
  show ?thesis
    using a b bibliography_presence
      [where w = ex_plain_world and t = "''t''" and r = ex_legacy_result] by blast
qed

text \<open>
  The claim as stated fails: the bibliography call answers with the four keys and empty
  strings, and the result carries them as they are.
\<close>

theorem bibliography_blank_counterexample:
  "parseAndVerifyCitations_client ex_blank_bib_world ''t'' = Inr ex_blank_bib_result
   \<and> multiStyleBib ex_blank_bib_result = Some ex_bib_blank
   \<and> map_of ex_bib_blank ''apa'' = Some []"
  by code_simp

subsection \<open>The handler\<close>










subsection \<open>Identifiers of citations\<close>

lemma verifyItem_api_id:
  "verifyItem_api a it = Inr c \<Longrightarrow> cit_id c = orElse (item_id it) (Some (drop 2 (random36 a)))"
  by (auto simp: verifyItem_api_def Let_def split: sum.splits call.splits option.splits)

lemma verifyItem_client_id:
  "verifyItem_client a it = Inr c \<Longrightarrow>
     cit_id c = orElse (item_id it) (Some (take 9 (drop 2 (random36 a))))"
  by (auto simp: verifyItem_client_def Let_def split: sum.splits call.splits option.splits)

lemma verifyItem_legacy_id:
  "verifyItem_legacy a it = Inr c \<Longrightarrow> cit_id c = item_id it"
  by (auto simp: verifyItem_legacy_def Let_def split: sum.splits call.splits option.splits)

lemma orElse_not_None: "orElse a (Some s) \<noteq> None"
  by (cases a) (simp_all add: orElse_def truthy_def)

lemma ids_of_truthy_items:
  assumes len: "length cs = length items"
    and ids: "\<forall>i<length items. cit_id (cs ! i) = orElse (item_id (items ! i)) (g i)"
    and tr: "\<forall>it\<in>set items. truthy (item_id it)"
  shows "map cit_id cs = map item_id items"
proof (rule nth_equalityI)
  show "length (map cit_id cs) = length (map item_id items)"
    using len by simp
next
  fix i assume "i < length (map cit_id cs)"
  then have i: "i < length items" using len by simp
  then have "truthy (item_id (items ! i))" using tr by simp
  then show "map cit_id cs ! i = map item_id items ! i"
    using i ids len by (simp add: orElse_def)
qed

text \<open>
  C9, as amended. In a result of \<^verbatim>\<open>api/verify.ts\<close> or of
  \<^verbatim>\<open>src/services/geminiService.ts\<close> every citation has an identifier: the one of its
  extracted item when that is a non-empty string, otherwise the one generated from
  \<^verbatim>\<open>Math.random\<close>. The identifiers are pairwise distinct when the extracted ones are
  non-empty and pairwise distinct; nothing in the code makes them so otherwise. The
  third file copies the extracted identifiers as they are.
\<close>

theorem citation_ids:
  "(parseAndVerifyCitations_api w t = Inr r \<and> extraction w t = Json items \<longrightarrow>
      length (citations r) = length items
      \<and> (\<forall>i<length items.
            cit_id (citations r ! i) =
              (if truthy (item_id (items ! i)) then item_id (items ! i)
               else Some (drop 2 (random36 (answer w i)))))
      \<and> (\<forall>c\<in>set (citations r). cit_id c \<noteq> None)
      \<and> ((\<forall>it\<in>set items. truthy (item_id it)) \<and> distinct (map item_id items) \<longrightarrow>
           distinct (map cit_id (citations r))))
   \<and> (parseAndVerifyCitations_client w t = Inr r \<and> extraction w t = Json items \<longrightarrow>
      length (citations r) = length items
      \<and> (\<forall>i<length items.
            cit_id (citations r ! i) =
              (if truthy (item_id (items ! i)) then item_id (items ! i)
               else Some (take 9 (drop 2 (random36 (answer w i))))))
      \<and> (\<forall>c\<in>set (citations r). cit_id c \<noteq> None)
      \<and> ((\<forall>it\<in>set items. truthy (item_id it)) \<and> distinct (map item_id items) \<longrightarrow>
           distinct (map cit_id (citations r))))
   \<and> (parseAndVerifyCitations_legacy w t = Inr r \<and> extraction w t = Json items \<longrightarrow>
      map cit_id (citations r) = map item_id items)"
proof (intro conjI impI)
  assume a: "parseAndVerifyCitations_api w t = Inr r \<and> extraction w t = Json items"
  then have loop: "verifyLoop verifyItem_api (answer w) 0 items = Inr (citations r)"
    by (auto elim!: api_result)
  have len: "length (citations r) = length items"
    using loop by (rule verifyLoop_length)
  have ids: "\<forall>i<length items.
      cit_id (citations r ! i) = orElse (item_id (items ! i)) (Some (drop 2 (random36 (answer w i))))"
    using verifyLoop_nth [OF loop] verifyItem_api_id by fastforce
  show "length (citations r) = length items" by (rule len)
  show "\<forall>i<length items.
            cit_id (citations r ! i) =
              (if truthy (item_id (items ! i)) then item_id (items ! i)
               else Some (drop 2 (random36 (answer w i))))"
    using ids by (simp add: orElse_def)
  show "\<forall>c\<in>set (citations r). cit_id c \<noteq> None"
    by (rule verifyLoop_all [OF loop]) (simp add: verifyItem_api_id orElse_not_None)
  show "distinct (map cit_id (citations r))"
    if "(\<forall>it\<in>set items. truthy (item_id it)) \<and> distinct (map item_id items)"
    using that ids_of_truthy_items [OF len ids] by simp
next
  assume a: "parseAndVerifyCitations_client w t = Inr r \<and> extraction w t = Json items"
  then have p: "parseAndVerifyCitations_client w t = Inr r"
    and e: "extraction w t = Json items"
    by simp_all
  from p obtain items' fused reviews where
    e': "extraction w t = Json items'"
    and loop': "verifyLoop verifyItem_client (answer w) 0 items' = Inr fused"
    and cs: "citations r = map (applyReview reviews) fused"
    by (elim client_result)
  from e e' loop' have loop: "verifyLoop verifyItem_client (answer w) 0 items = Inr fused"
    by simp
  have flen: "length fused = length items"
    using loop by (rule verifyLoop_length)
  then have len: "length (citations r) = length items"
    using cs by simp
  have same: "cit_id (citations r ! i) = cit_id (fused ! i)" if "i < length items" for i
    using that cs flen applyReview_frame [of reviews "fused ! i"] by simp
  have fids: "\<forall>i<length items.
      cit_id (fused ! i) = orElse (item_id (items ! i)) (Some (take 9 (drop 2 (random36 (answer w i)))))"
    using verifyLoop_nth [OF loop] verifyItem_client_id by fastforce
  then have ids: "\<forall>i<length items.
      cit_id (citations r ! i) = orElse (item_id (items ! i)) (Some (take 9 (drop 2 (random36 (answer w i)))))"
    using same by simp
  show "length (citations r) = length items" by (rule len)
  show "\<forall>i<length items.
            cit_id (citations r ! i) =
              (if truthy (item_id (items ! i)) then item_id (items ! i)
               else Some (take 9 (drop 2 (random36 (answer w i)))))"
    using ids by (simp add: orElse_def)
  show "\<forall>c\<in>set (citations r). cit_id c \<noteq> None"
  proof
    fix c assume "c \<in> set (citations r)"
    then obtain i where "i < length items" "c = citations r ! i"
      using len by (metis in_set_conv_nth)
    then show "cit_id c \<noteq> None"
      using ids by (simp add: orElse_not_None)
  qed
  show "distinct (map cit_id (citations r))"
    if "(\<forall>it\<in>set items. truthy (item_id it)) \<and> distinct (map item_id items)"
    using that ids_of_truthy_items [OF len ids] by simp
next
  assume a: "parseAndVerifyCitations_legacy w t = Inr r \<and> extraction w t = Json items"
  then have loop: "verifyLoop verifyItem_legacy (answer w) 0 items = Inr (citations r)"
    by (auto elim!: legacy_result)
  have len: "length (citations r) = length items"
    using loop by (rule verifyLoop_length)
  show "map cit_id (citations r) = map item_id items"
  proof (rule nth_equalityI)
    show "length (map cit_id (citations r)) = length (map item_id items)"
      using len by simp
  next
    fix i assume "i < length (map cit_id (citations r))"
    then have i: "i < length items" using len by simp
    then have "verifyItem_legacy (answer w (0 + i)) (items ! i) = Inr (citations r ! i)"
      by (rule verifyLoop_nth [OF loop])
    then show "map cit_id (citations r) ! i = map item_id items ! i"
      using i len by (simp add: verifyItem_legacy_id)
  qed
qed

theorem citation_ids_witness:
  "parseAndVerifyCitations_api ex_pair_world ''t'' = Inr ex_pair_result
   \<and> extraction ex_pair_world ''t'' = Json [ex_item, ex_item2]
   \<and> map item_id [ex_item, ex_item2] = [Some ''1'', Some ''2'']
   \<and> distinct (map cit_id (citations ex_pair_result))
   \<and> parseAndVerifyCitations_api ex_anon_world ''t'' = Inr ex_anon_result
   \<and> parseAndVerifyCitations_client ex_anon_world ''t'' = Inr ex_anon_client_result
   \<and> extraction ex_anon_world ''t'' = Json [ex_item, ex_anon_item]
   \<and> map item_id [ex_item, ex_anon_item] = [Some ''1'', None]
   \<and> random36 (answer ex_anon_world 1) = ''0.k3x9q2m7p1z''
   \<and> cit_id (citations ex_anon_result ! 1) = Some ''k3x9q2m7p1z''
   \<and> cit_id (citations ex_anon_client_result ! 1) = Some ''k3x9q2m7p''"
proof -
  have a: "parseAndVerifyCitations_api ex_pair_world ''t'' = Inr ex_pair_result"
    by code_simp
  have b: "extraction ex_pair_world ''t'' = Json [ex_item, ex_item2]"
    by (simp add: ex_pair_world_def ex_world_def)
  have c: "map item_id [ex_item, ex_item2] = [Some ''1'', Some ''2'']"
    by (simp add: ex_item_def ex_item2_def)
  then have c': "(\<forall>it\<in>set [ex_item, ex_item2]. truthy (item_id it))
           \<and> distinct (map item_id [ex_item, ex_item2])"
    by (simp add: truthy_def)
  have d: "distinct (map cit_id (citations ex_pair_result))"
    using a b c' citation_ids
      [where w = ex_pair_world and t = "''t''" and r = ex_pair_result
         and items = "[ex_item, ex_item2]"] by blast
  have e: "parseAndVerifyCitations_api ex_anon_world ''t'' = Inr ex_anon_result"
    by code_simp
  have f: "parseAndVerifyCitations_client ex_anon_world ''t'' = Inr ex_anon_client_result"
    by code_simp
  have g: "extraction ex_anon_world ''t'' = Json [ex_item, ex_anon_item]"
    by (simp add: ex_anon_world_def ex_world_def)
  have h: "map item_id [ex_item, ex_anon_item] = [Some ''1'', None]"
    by (simp add: ex_item_def ex_anon_item_def)
  have i: "random36 (answer ex_anon_world 1) = ''0.k3x9q2m7p1z''"
    by (simp add: ex_anon_world_def ex_world_def ex_registry_only_def)
  have nt: "\<not> truthy (item_id ([ex_item, ex_anon_item] ! 1))" "(1::nat) < length [ex_item, ex_anon_item]"
    by (simp_all add: ex_anon_item_def truthy_def)
  have "cit_id (citations ex_anon_result ! 1) = Some (drop 2 (random36 (answer ex_anon_world 1)))"
    using e g nt citation_ids
      [where w = ex_anon_world and t = "''t''" and r = ex_anon_result
         and items = "[ex_item, ex_anon_item]"] by presburger
  then have j: "cit_id (citations ex_anon_result ! 1) = Some ''k3x9q2m7p1z''"
    unfolding i by simp
  have "cit_id (citations ex_anon_client_result ! 1)
          = Some (take 9 (drop 2 (random36 (answer ex_anon_world 1))))"
    using f g nt citation_ids
      [where w = ex_anon_world and t = "''t''" and r = ex_anon_client_result
         and items = "[ex_item, ex_anon_item]"] by presburger
  then have k: "cit_id (citations ex_anon_client_result ! 1) = Some ''k3x9q2m7p''"
    unfolding i by simp
  show ?thesis
    using a b c d e f g h i j k by blast
qed

text \<open>
  The claim as stated fails: the extraction call returns two items with the id "1", and
  both citations of the result carry it.
\<close>

theorem citation_ids_counterexample:
  "parseAndVerifyCitations_api ex_dup_world ''t'' = Inr ex_dup_result
   \<and> map cit_id (citations ex_dup_result) = [Some ''1'', Some ''1'']
   \<and> \<not> distinct (map cit_id (citations ex_dup_result))"
  by code_simp

subsection \<open>Identifier extraction\<close>

lemma consumed_Nil [simp]: "consumed p q [] \<longleftrightarrow> q = p"
  by (cases p; cases q) (auto simp: consumed_def)

lemma consumed_append:
  "consumed p q (u @ v) \<longleftrightarrow> (\<exists>x. consumed p x u \<and> consumed x q v)"
proof
  assume "consumed p q (u @ v)"
  then have "consumed p (rev u @ fst p, v @ snd q) u \<and> consumed (rev u @ fst p, v @ snd q) q v"
    by (simp add: consumed_def)
  then show "\<exists>x. consumed p x u \<and> consumed x q v" by blast
next
  assume "\<exists>x. consumed p x u \<and> consumed x q v"
  then show "consumed p q (u @ v)" by (auto simp: consumed_def)
qed

lemma consumed_matched: "consumed p q w \<Longrightarrow> matched p q = w"
  by (simp add: consumed_def matched_def)

lemma recognisesD:
  "recognises f A \<Longrightarrow> q \<in> set (f p) \<longleftrightarrow> (\<exists>w\<in>A. consumed p q w)"
  unfolding recognises_def by blast

lemma recognises_Chr: "recognises (matcher (Chr k)) {[c] | c. in_class k c}"
  unfolding recognises_def
proof (intro allI)
  fix p q :: pos
  show "q \<in> set (matcher (Chr k) p) \<longleftrightarrow> (\<exists>w\<in>{[c] | c. in_class k c}. consumed p q w)"
    by (cases p; cases q; cases "snd p") (auto simp: consumed_def)
qed

lemma recognises_Seq:
  assumes "recognises (matcher r1) A" and "recognises (matcher r2) B"
  shows "recognises (matcher (Seq r1 r2)) {u @ v | u v. u \<in> A \<and> v \<in> B}"
  unfolding recognises_def
proof (intro allI)
  fix p q :: pos
  have "q \<in> set (matcher (Seq r1 r2) p) \<longleftrightarrow> (\<exists>x\<in>set (matcher r1 p). q \<in> set (matcher r2 x))"
    by auto
  also have "\<dots> \<longleftrightarrow> (\<exists>x. (\<exists>u\<in>A. consumed p x u) \<and> (\<exists>v\<in>B. consumed x q v))"
    using recognisesD [OF assms(1)] recognisesD [OF assms(2)] by blast
  also have "\<dots> \<longleftrightarrow> (\<exists>u\<in>A. \<exists>v\<in>B. consumed p q (u @ v))"
    by (auto simp: consumed_append)
  also have "\<dots> \<longleftrightarrow> (\<exists>w\<in>{u @ v | u v. u \<in> A \<and> v \<in> B}. consumed p q w)"
    by blast
  finally show "q \<in> set (matcher (Seq r1 r2) p)
      \<longleftrightarrow> (\<exists>w\<in>{u @ v | u v. u \<in> A \<and> v \<in> B}. consumed p q w)" .
qed

lemma recognises_NotAhead_Chr:
  "recognises (matcher (Seq (NotAhead (Chr k1)) (Chr k2)))
     {[c] | c. \<not> in_class k1 c \<and> in_class k2 c}"
  unfolding recognises_def
proof (intro allI)
  fix p q :: pos
  show "q \<in> set (matcher (Seq (NotAhead (Chr k1)) (Chr k2)) p)
      \<longleftrightarrow> (\<exists>w\<in>{[c] | c. \<not> in_class k1 c \<and> in_class k2 c}. consumed p q w)"
    by (cases p; cases q; cases "snd p") (auto simp: consumed_def)
qed

lemma rep_recognises:
  assumes f: "recognises f A" and ne: "[] \<notin> A"
  shows "lo + length (snd p) \<le> n \<Longrightarrow> le_opt lo hi \<Longrightarrow>
     q \<in> set (rep f n lo hi p) \<longleftrightarrow>
       (\<exists>ws. lo \<le> length ws \<and> le_opt (length ws) hi \<and> set ws \<subseteq> A \<and> consumed p q (concat ws))"
proof (induction n arbitrary: lo hi p)
  case 0
  then have lo: "lo = 0" and p: "snd p = []" by simp_all
  have "(\<exists>ws. lo \<le> length ws \<and> le_opt (length ws) hi \<and> set ws \<subseteq> A \<and> consumed p q (concat ws))
        \<longleftrightarrow> q = p"
  proof
    assume "\<exists>ws. lo \<le> length ws \<and> le_opt (length ws) hi \<and> set ws \<subseteq> A \<and> consumed p q (concat ws)"
    then obtain ws where ws: "set ws \<subseteq> A" "consumed p q (concat ws)" by blast
    then have "concat ws = []" using p by (simp add: consumed_def)
    moreover have "ws = []"
    proof (rule ccontr)
      assume "ws \<noteq> []"
      then obtain w where w: "w \<in> set ws" by (cases ws) auto
      with \<open>concat ws = []\<close> have "w = []" by simp
      with w ws(1) ne show False by blast
    qed
    ultimately show "q = p" using ws by simp
  next
    assume "q = p"
    then have "lo \<le> length ([] :: string list) \<and> le_opt (length ([] :: string list)) hi
               \<and> set ([] :: string list) \<subseteq> A \<and> consumed p q (concat [])"
      using lo by (simp add: le_opt_def split: option.splits)
    then show "\<exists>ws. lo \<le> length ws \<and> le_opt (length ws) hi \<and> set ws \<subseteq> A \<and> consumed p q (concat ws)"
      by blast
  qed
  then show ?case using lo by auto
next
  case (Suc n)
  show ?case
  proof (cases "hi = Some 0")
    case True
    with Suc.prems have lo: "lo = 0" by (simp add: le_opt_def)
    have "(\<exists>ws. lo \<le> length ws \<and> le_opt (length ws) hi \<and> set ws \<subseteq> A \<and> consumed p q (concat ws))
        \<longleftrightarrow> q = p"
      using True lo by (auto simp: le_opt_def)
    then show ?thesis using True by simp
  next
    case False
    let ?hi = "map_option (\<lambda>h. h - 1) hi"
    have shorter: "length (snd x) < length (snd p)" if "x \<in> set (f p)" for x
    proof -
      from that obtain w where "w \<in> A" "consumed p x w"
        using recognisesD [OF f] by blast
      then show ?thesis using ne by (cases w) (auto simp: consumed_def)
    qed
    have filt: "filter (\<lambda>q. \<not> (lo = 0 \<and> length (snd q) = length (snd p))) (f p) = f p"
    proof (rule filter_True)
      show "\<forall>x\<in>set (f p). \<not> (lo = 0 \<and> length (snd x) = length (snd p))"
        using shorter by fastforce
    qed
    have IH: "q \<in> set (rep f n (lo - 1) ?hi x) \<longleftrightarrow>
       (\<exists>ws. lo - 1 \<le> length ws \<and> le_opt (length ws) ?hi \<and> set ws \<subseteq> A \<and> consumed x q (concat ws))"
      if "x \<in> set (f p)" for x
    proof (rule Suc.IH)
      show "lo - 1 + length (snd x) \<le> n"
        using shorter [OF that] Suc.prems(1) by simp
      show "le_opt (lo - 1) ?hi"
        using Suc.prems(2) False by (auto simp: le_opt_def split: option.splits)
    qed
    have "q \<in> set (rep f (Suc n) lo hi p) \<longleftrightarrow>
            (\<exists>x\<in>set (f p). q \<in> set (rep f n (lo - 1) ?hi x)) \<or> (lo = 0 \<and> q = p)"
      using False filt by auto
    also have "\<dots> \<longleftrightarrow>
       (\<exists>x\<in>set (f p). \<exists>ws. lo - 1 \<le> length ws \<and> le_opt (length ws) ?hi \<and> set ws \<subseteq> A
           \<and> consumed x q (concat ws)) \<or> (lo = 0 \<and> q = p)"
      using IH by simp
    also have "\<dots> \<longleftrightarrow>
       (\<exists>w\<in>A. \<exists>ws. lo - 1 \<le> length ws \<and> le_opt (length ws) ?hi \<and> set ws \<subseteq> A
           \<and> consumed p q (concat (w # ws))) \<or> (lo = 0 \<and> q = p)"
    proof -
      have "(\<exists>x\<in>set (f p). \<exists>ws. lo - 1 \<le> length ws \<and> le_opt (length ws) ?hi \<and> set ws \<subseteq> A
                \<and> consumed x q (concat ws))
            \<longleftrightarrow> (\<exists>w\<in>A. \<exists>ws. lo - 1 \<le> length ws \<and> le_opt (length ws) ?hi \<and> set ws \<subseteq> A
                \<and> consumed p q (concat (w # ws)))" (is "?A \<longleftrightarrow> ?B")
      proof
        assume ?A
        then obtain x ws where x: "x \<in> set (f p)"
          and ws: "lo - 1 \<le> length ws" "le_opt (length ws) ?hi" "set ws \<subseteq> A"
          and xq: "consumed x q (concat ws)" by blast
        from x obtain w where w: "w \<in> A" "consumed p x w"
          using recognisesD [OF f] by blast
        with xq have "consumed p q (concat (w # ws))"
          unfolding concat.simps consumed_append by blast
        with w ws show ?B by blast
      next
        assume ?B
        then obtain w ws where w: "w \<in> A"
          and ws: "lo - 1 \<le> length ws" "le_opt (length ws) ?hi" "set ws \<subseteq> A"
          and pq: "consumed p q (concat (w # ws))" by blast
        from pq obtain x where x: "consumed p x w" "consumed x q (concat ws)"
          unfolding concat.simps consumed_append by blast
        with w have "x \<in> set (f p)"
          using recognisesD [OF f] by blast
        with ws x show ?A by blast
      qed
      then show ?thesis by simp
    qed
    also have "\<dots> \<longleftrightarrow>
       (\<exists>ws. lo \<le> length ws \<and> le_opt (length ws) hi \<and> set ws \<subseteq> A \<and> consumed p q (concat ws))"
      (is "?L \<longleftrightarrow> ?R")
    proof
      assume ?L
      then show ?R
      proof
        assume "\<exists>w\<in>A. \<exists>ws. lo - 1 \<le> length ws \<and> le_opt (length ws) ?hi \<and> set ws \<subseteq> A
           \<and> consumed p q (concat (w # ws))"
        then obtain w ws where w: "w \<in> A" and ws: "lo - 1 \<le> length ws" "le_opt (length ws) ?hi"
          "set ws \<subseteq> A" "consumed p q (concat (w # ws))" by blast
        have "lo \<le> length (w # ws) \<and> le_opt (length (w # ws)) hi \<and> set (w # ws) \<subseteq> A
              \<and> consumed p q (concat (w # ws))"
          using w ws False by (auto simp: le_opt_def split: option.splits)
        then show ?R by blast
      next
        assume "lo = 0 \<and> q = p"
        then have "lo \<le> length ([] :: string list) \<and> le_opt (length ([] :: string list)) hi
               \<and> set ([] :: string list) \<subseteq> A \<and> consumed p q (concat [])"
          by (simp add: le_opt_def split: option.splits)
        then show ?R by blast
      qed
    next
      assume ?R
      then obtain ws where ws: "lo \<le> length ws" "le_opt (length ws) hi" "set ws \<subseteq> A"
        "consumed p q (concat ws)" by blast
      show ?L
      proof (cases ws)
        case Nil
        with ws show ?thesis by simp
      next
        case (Cons w ws')
        with ws False have "w \<in> A \<and> lo - 1 \<le> length ws' \<and> le_opt (length ws') ?hi \<and> set ws' \<subseteq> A
           \<and> consumed p q (concat (w # ws'))"
          by (auto simp: le_opt_def split: option.splits)
        then show ?thesis by blast
      qed
    qed
    finally show ?thesis .
  qed
qed

lemma recognises_Repeat:
  assumes "recognises (matcher r) A" and "[] \<notin> A" and "le_opt lo hi"
  shows "recognises (matcher (Repeat lo hi r))
           {concat ws | ws. lo \<le> length ws \<and> le_opt (length ws) hi \<and> set ws \<subseteq> A}"
  unfolding recognises_def
proof (intro allI)
  fix p q :: pos
  have "q \<in> set (matcher (Repeat lo hi r) p) \<longleftrightarrow>
       (\<exists>ws. lo \<le> length ws \<and> le_opt (length ws) hi \<and> set ws \<subseteq> A \<and> consumed p q (concat ws))"
    using rep_recognises [OF assms(1,2) _ assms(3), of p "lo + length (snd p)" q] by simp
  then show "q \<in> set (matcher (Repeat lo hi r) p) \<longleftrightarrow>
      (\<exists>w\<in>{concat ws | ws. lo \<le> length ws \<and> le_opt (length ws) hi \<and> set ws \<subseteq> A}.
          consumed p q w)"
    by blast
qed

lemma recognises_cong: "recognises f A \<Longrightarrow> A = B \<Longrightarrow> recognises f B"
  by simp

lemma recognises_Exactly: "recognises (matcher (Chr (Exactly a))) {[a]}"
  by (rule recognises_cong [OF recognises_Chr]) auto

lemma concat_singletons:
  "{concat ws | ws. lo \<le> length ws \<and> le_opt (length ws) hi \<and> set ws \<subseteq> {[c] | c. P c}}
   = {w. lo \<le> length w \<and> le_opt (length w) hi \<and> (\<forall>c\<in>set w. P c)}" (is "?L = ?R")
proof (intro set_eqI iffI)
  fix w assume "w \<in> ?L"
  then obtain ws where w: "w = concat ws" and len: "lo \<le> length ws" "le_opt (length ws) hi"
    and ws: "set ws \<subseteq> {[c] | c. P c}" by blast
  from ws have "length (concat ws) = length ws \<and> (\<forall>c\<in>set (concat ws). P c)"
    by (induction ws) auto
  with w len show "w \<in> ?R" by simp
next
  fix w assume "w \<in> ?R"
  then have "w = concat (map (\<lambda>c. [c]) w) \<and> lo \<le> length (map (\<lambda>c. [c]) w)
     \<and> le_opt (length (map (\<lambda>c. [c]) w)) hi \<and> set (map (\<lambda>c. [c]) w) \<subseteq> {[c] | c. P c}"
    by (auto simp: concat_map_singleton)
  then show "w \<in> ?L" by blast
qed

lemma recognises_chars:
  assumes "recognises (matcher r) {[c] | c. P c}" and "le_opt lo hi"
  shows "recognises (matcher (Repeat lo hi r))
           {w. lo \<le> length w \<and> le_opt (length w) hi \<and> (\<forall>c\<in>set w. P c)}"
  by (rule recognises_cong [OF recognises_Repeat [OF assms(1) _ assms(2)]])
     (auto simp: concat_singletons)

lemma recognises_digits:
  "le_opt lo hi \<Longrightarrow>
   recognises (matcher (Repeat lo hi (Chr Digit)))
     {w. lo \<le> length w \<and> le_opt (length w) hi \<and> isDigits w}"
  using recognises_chars [OF recognises_Chr [of Digit], of lo hi]
  by (simp add: isDigits_def)

lemma recognises_segment:
  "recognises (matcher (Seq (Chr (Exactly CHR ''.'')) (Repeat 1 None (Chr Digit))))
     {CHR ''.'' # g | g. g \<noteq> [] \<and> isDigits g}"
proof (rule recognises_cong [OF recognises_Seq [OF recognises_Exactly recognises_digits]])
  show "le_opt 1 None" by (simp add: le_opt_def)
  show "{u @ v | u v. u \<in> {[CHR ''.'']} \<and> v \<in> {w. 1 \<le> length w \<and> le_opt (length w) None \<and> isDigits w}}
        = {CHR ''.'' # g | g. g \<noteq> [] \<and> isDigits g}"
    by (auto simp: le_opt_def Suc_le_eq)
qed

lemma recognises_segments:
  "recognises
     (matcher (Repeat 0 None (Seq (Chr (Exactly CHR ''.'')) (Repeat 1 None (Chr Digit)))))
     {concat (map ((#) CHR ''.'') segs) | segs. \<forall>g\<in>set segs. g \<noteq> [] \<and> isDigits g}"
proof (rule recognises_cong [OF recognises_Repeat [OF recognises_segment]])
  show "[] \<notin> {CHR ''.'' # g | g. g \<noteq> [] \<and> isDigits g}" by simp
  show "le_opt 0 None" by (simp add: le_opt_def)
  show "{concat ws | ws. 0 \<le> length ws \<and> le_opt (length ws) None
            \<and> set ws \<subseteq> {CHR ''.'' # g | g. g \<noteq> [] \<and> isDigits g}}
        = {concat (map ((#) CHR ''.'') segs) | segs. \<forall>g\<in>set segs. g \<noteq> [] \<and> isDigits g}"
    (is "?L = ?R")
  proof (intro set_eqI iffI)
    fix w assume "w \<in> ?L"
    then obtain ws where w: "w = concat ws"
      and ws: "set ws \<subseteq> {CHR ''.'' # g | g. g \<noteq> [] \<and> isDigits g}" by blast
    from ws have "map ((#) CHR ''.'') (map tl ws) = ws \<and> (\<forall>g\<in>set (map tl ws). g \<noteq> [] \<and> isDigits g)"
      by (induction ws) auto
    with w have "w = concat (map ((#) CHR ''.'') (map tl ws))
        \<and> (\<forall>g\<in>set (map tl ws). g \<noteq> [] \<and> isDigits g)"
      by simp
    then show "w \<in> ?R" by blast
  next
    fix w assume "w \<in> ?R"
    then obtain segs where "w = concat (map ((#) CHR ''.'') segs)"
      "\<forall>g\<in>set segs. g \<noteq> [] \<and> isDigits g" by blast
    then have "w = concat (map ((#) CHR ''.'') segs) \<and> 0 \<le> length (map ((#) CHR ''.'') segs)
       \<and> le_opt (length (map ((#) CHR ''.'') segs)) None
       \<and> set (map ((#) CHR ''.'') segs) \<subseteq> {CHR ''.'' # g | g. g \<noteq> [] \<and> isDigits g}"
      by (auto simp: le_opt_def)
    then show "w \<in> ?L" by blast
  qed
qed

lemma recognises_suffix:
  "recognises
     (matcher (Repeat 1 None
        (Seq (NotAhead (Chr (OneOf [CHR 0x22, CHR ''&'', CHR 0x27, CHR ''<'', CHR ''>''])))
             (Chr NonSpace))))
     {w. w \<noteq> [] \<and> (\<forall>c\<in>set w. doiSuffixChar c)}"
proof -
  have "recognises
     (matcher (Seq (NotAhead (Chr (OneOf [CHR 0x22, CHR ''&'', CHR 0x27, CHR ''<'', CHR ''>''])))
             (Chr NonSpace)))
     {[c] | c. doiSuffixChar c}"
    by (rule recognises_cong [OF recognises_NotAhead_Chr]) (simp add: doiSuffixChar_def)
  from recognises_chars [OF this, of 1 None]
  show ?thesis
    by (rule recognises_cong) (auto simp: le_opt_def Suc_le_eq)
qed

lemma recognises_suffix_legacy:
  "recognises (matcher (Repeat 1 None (Chr NonSpace)))
     {w. w \<noteq> [] \<and> (\<forall>c\<in>set w. \<not> isWhiteSpace c)}"
  using recognises_chars [OF recognises_Chr [of NonSpace], of 1 None]
  by (rule recognises_cong) (auto simp: le_opt_def Suc_le_eq)

lemma recognises_toD:
  "recognises_to f A \<Longrightarrow> q \<in> set (f p) \<longleftrightarrow> (\<exists>w\<in>A. consumed p q w) \<and> atBoundary q"
  unfolding recognises_to_def by blast

lemma recognises_to_cong: "recognises_to f A \<Longrightarrow> A = B \<Longrightarrow> recognises_to f B"
  by simp

lemma recognises_to_Boundary:
  assumes "recognises (matcher r) A"
  shows "recognises_to (matcher (Seq r Boundary)) A"
  unfolding recognises_to_def
proof (intro allI)
  fix p q :: pos
  have "q \<in> set (matcher (Seq r Boundary) p)
        \<longleftrightarrow> (\<exists>x\<in>set (matcher r p). q \<in> set (matcher Boundary x))"
    by auto
  also have "\<dots> \<longleftrightarrow> q \<in> set (matcher r p) \<and> atBoundary q"
    by auto
  finally show "q \<in> set (matcher (Seq r Boundary) p)
      \<longleftrightarrow> (\<exists>w\<in>A. consumed p q w) \<and> atBoundary q"
    using recognisesD [OF assms] by blast
qed

lemma recognises_to_Seq:
  assumes "recognises (matcher r1) A" and "recognises_to (matcher r2) B"
  shows "recognises_to (matcher (Seq r1 r2)) {u @ v | u v. u \<in> A \<and> v \<in> B}"
  unfolding recognises_to_def
proof (intro allI)
  fix p q :: pos
  have "q \<in> set (matcher (Seq r1 r2) p) \<longleftrightarrow> (\<exists>x\<in>set (matcher r1 p). q \<in> set (matcher r2 x))"
    by auto
  also have "\<dots> \<longleftrightarrow> (\<exists>x. (\<exists>u\<in>A. consumed p x u) \<and> (\<exists>v\<in>B. consumed x q v) \<and> atBoundary q)"
    using recognisesD [OF assms(1)] recognises_toD [OF assms(2)] by blast
  also have "\<dots> \<longleftrightarrow> (\<exists>u\<in>A. \<exists>v\<in>B. consumed p q (u @ v)) \<and> atBoundary q"
    unfolding consumed_append by blast
  also have "\<dots> \<longleftrightarrow> (\<exists>w\<in>{u @ v | u v. u \<in> A \<and> v \<in> B}. consumed p q w) \<and> atBoundary q"
    by blast
  finally show "q \<in> set (matcher (Seq r1 r2) p)
      \<longleftrightarrow> (\<exists>w\<in>{u @ v | u v. u \<in> A \<and> v \<in> B}. consumed p q w) \<and> atBoundary q" .
qed

lemma concI: "u \<in> A \<Longrightarrow> v \<in> B \<Longrightarrow> u @ v \<in> {u @ v | u v. u \<in> A \<and> v \<in> B}"
  by blast

lemma doiRegex_tail:
  "recognises_to
     (matcher
       (Seq (Chr (Exactly CHR ''1'')) (Seq (Chr (Exactly CHR ''0'')) (Seq (Chr (Exactly CHR ''.''))
       (Seq (Repeat 4 None (Chr Digit))
       (Seq (Repeat 0 None (Seq (Chr (Exactly CHR ''.'')) (Repeat 1 None (Chr Digit))))
       (Seq (Chr (Exactly CHR ''/''))
       (Seq (Repeat 1 None
              (Seq (NotAhead (Chr (OneOf [CHR 0x22, CHR ''&'', CHR 0x27, CHR ''<'', CHR ''>''])))
                   (Chr NonSpace)))
            Boundary))))))))
     {d. doiShape d}"
proof -
  have digits: "recognises (matcher (Repeat 4 None (Chr Digit))) {w. 4 \<le> length w \<and> isDigits w}"
    using recognises_digits [of 4 None] by (simp add: le_opt_def)
  note step = recognises_to_Seq
  show ?thesis
  proof (rule recognises_to_cong
        [OF step [OF recognises_Exactly step [OF recognises_Exactly step [OF recognises_Exactly
          step [OF digits step [OF recognises_segments step [OF recognises_Exactly
            recognises_to_Boundary [OF recognises_suffix]]]]]]]],
      intro set_eqI iffI)
    fix d
    assume "d \<in> {u @ v | u v. u \<in> {[CHR ''1'']} \<and> v \<in> {u @ v | u v. u \<in> {[CHR ''0'']} \<and> v \<in>
       {u @ v | u v. u \<in> {[CHR ''.'']} \<and> v \<in> {u @ v | u v. u \<in> {w. 4 \<le> length w \<and> isDigits w} \<and> v \<in>
       {u @ v | u v. u \<in> {concat (map ((#) CHR ''.'') segs) | segs. \<forall>g\<in>set segs. g \<noteq> [] \<and> isDigits g} \<and> v \<in>
       {u @ v | u v. u \<in> {[CHR ''/'']} \<and> v \<in> {w. w \<noteq> [] \<and> (\<forall>c\<in>set w. doiSuffixChar c)}}}}}}}"
    then show "d \<in> {d. doiShape d}"
      by (auto simp: doiShape_def)
  next
    fix d assume "d \<in> {d. doiShape d}"
    then obtain ds segs sfx where
      d: "d = [CHR ''1''] @ [CHR ''0''] @ [CHR ''.''] @ ds @ concat (map ((#) CHR ''.'') segs)
              @ [CHR ''/''] @ sfx"
      and ds: "ds \<in> {w. 4 \<le> length w \<and> isDigits w}"
      and segs: "concat (map ((#) CHR ''.'') segs)
                 \<in> {concat (map ((#) CHR ''.'') segs) | segs. \<forall>g\<in>set segs. g \<noteq> [] \<and> isDigits g}"
      and sfx: "sfx \<in> {w. w \<noteq> [] \<and> (\<forall>c\<in>set w. doiSuffixChar c)}"
      by (auto simp: doiShape_def)
    show "d \<in> {u @ v | u v. u \<in> {[CHR ''1'']} \<and> v \<in> {u @ v | u v. u \<in> {[CHR ''0'']} \<and> v \<in>
       {u @ v | u v. u \<in> {[CHR ''.'']} \<and> v \<in> {u @ v | u v. u \<in> {w. 4 \<le> length w \<and> isDigits w} \<and> v \<in>
       {u @ v | u v. u \<in> {concat (map ((#) CHR ''.'') segs) | segs. \<forall>g\<in>set segs. g \<noteq> [] \<and> isDigits g} \<and> v \<in>
       {u @ v | u v. u \<in> {[CHR ''/'']} \<and> v \<in> {w. w \<noteq> [] \<and> (\<forall>c\<in>set w. doiSuffixChar c)}}}}}}}"
      unfolding d by (intro concI ds segs sfx singletonI)
  qed
qed

lemma doiRegex_legacy_tail:
  "recognises_to
     (matcher
       (Seq (Chr (Exactly CHR ''1'')) (Seq (Chr (Exactly CHR ''0'')) (Seq (Chr (Exactly CHR ''.''))
       (Seq (Repeat 4 (Some 9) (Chr Digit))
       (Seq (Chr (Exactly CHR ''/''))
       (Seq (Repeat 1 None (Chr NonSpace)) Boundary)))))))
     {d. doiShape_legacy d}"
proof -
  have digits: "recognises (matcher (Repeat 4 (Some 9) (Chr Digit)))
                  {w. 4 \<le> length w \<and> length w \<le> 9 \<and> isDigits w}"
    using recognises_digits [of 4 "Some 9"] by (simp add: le_opt_def)
  note step = recognises_to_Seq
  show ?thesis
  proof (rule recognises_to_cong
        [OF step [OF recognises_Exactly step [OF recognises_Exactly step [OF recognises_Exactly
          step [OF digits step [OF recognises_Exactly
            recognises_to_Boundary [OF recognises_suffix_legacy]]]]]]],
      intro set_eqI iffI)
    fix d
    assume "d \<in> {u @ v | u v. u \<in> {[CHR ''1'']} \<and> v \<in> {u @ v | u v. u \<in> {[CHR ''0'']} \<and> v \<in>
       {u @ v | u v. u \<in> {[CHR ''.'']} \<and> v \<in>
       {u @ v | u v. u \<in> {w. 4 \<le> length w \<and> length w \<le> 9 \<and> isDigits w} \<and> v \<in>
       {u @ v | u v. u \<in> {[CHR ''/'']} \<and> v \<in> {w. w \<noteq> [] \<and> (\<forall>c\<in>set w. \<not> isWhiteSpace c)}}}}}}"
    then show "d \<in> {d. doiShape_legacy d}"
      by (auto simp: doiShape_legacy_def)
  next
    fix d assume "d \<in> {d. doiShape_legacy d}"
    then obtain ds sfx where
      d: "d = [CHR ''1''] @ [CHR ''0''] @ [CHR ''.''] @ ds @ [CHR ''/''] @ sfx"
      and ds: "ds \<in> {w. 4 \<le> length w \<and> length w \<le> 9 \<and> isDigits w}"
      and sfx: "sfx \<in> {w. w \<noteq> [] \<and> (\<forall>c\<in>set w. \<not> isWhiteSpace c)}"
      by (auto simp: doiShape_legacy_def)
    show "d \<in> {u @ v | u v. u \<in> {[CHR ''1'']} \<and> v \<in> {u @ v | u v. u \<in> {[CHR ''0'']} \<and> v \<in>
       {u @ v | u v. u \<in> {[CHR ''.'']} \<and> v \<in>
       {u @ v | u v. u \<in> {w. 4 \<le> length w \<and> length w \<le> 9 \<and> isDigits w} \<and> v \<in>
       {u @ v | u v. u \<in> {[CHR ''/'']} \<and> v \<in> {w. w \<noteq> [] \<and> (\<forall>c\<in>set w. \<not> isWhiteSpace c)}}}}}}"
      unfolding d by (intro concI ds sfx singletonI)
  qed
qed

lemma matcher_doiRegex:
  "q \<in> set (matcher doiRegex p)
   \<longleftrightarrow> atBoundary p \<and> (\<exists>d. doiShape d \<and> consumed p q d) \<and> atBoundary q"
  using recognises_toD [OF doiRegex_tail, of q p]
  by (simp add: doiRegex_def)

lemma matcher_doiRegex_legacy:
  "q \<in> set (matcher doiRegex_legacy p)
   \<longleftrightarrow> atBoundary p \<and> (\<exists>d. doiShape_legacy d \<and> consumed p q d) \<and> atBoundary q"
  using recognises_toD [OF doiRegex_legacy_tail, of q p]
  by (simp add: doiRegex_legacy_def)

lemma exec_None_iff:
  "exec r (b, a) = None \<longleftrightarrow> (\<forall>pre rest. a = pre @ rest \<longrightarrow> matcher r (rev pre @ b, rest) = [])"
proof (induction a arbitrary: b)
  case Nil
  show ?case by (simp split: list.splits)
next
  case (Cons c cs)
  have split: "(\<forall>pre rest. c # cs = pre @ rest \<longrightarrow> matcher r (rev pre @ b, rest) = [])
     \<longleftrightarrow> matcher r (b, c # cs) = []
         \<and> (\<forall>pre rest. cs = pre @ rest \<longrightarrow> matcher r (rev pre @ c # b, rest) = [])"
    (is "?L \<longleftrightarrow> ?R")
  proof
    assume l: ?L
    have "matcher r (rev [] @ b, c # cs) = []" using l by blast
    moreover have "matcher r (rev pre @ c # b, rest) = []" if "cs = pre @ rest" for pre rest
      using l [rule_format, of "c # pre" rest] that by simp
    ultimately show ?R by simp
  next
    assume r: ?R
    show ?L
    proof (intro allI impI)
      fix pre rest assume eq: "c # cs = pre @ rest"
      show "matcher r (rev pre @ b, rest) = []"
      proof (cases pre)
        case Nil
        with eq r show ?thesis by simp
      next
        case (Cons x pre')
        with eq have "x = c" "cs = pre' @ rest" by simp_all
        with r Cons show ?thesis by simp
      qed
    qed
  qed
  show ?case
    unfolding split using Cons.IH [of "c # b"] by (simp split: list.splits)
qed

lemma exec_Some_iff:
  "exec r (b, a) = Some d \<longleftrightarrow>
     (\<exists>pre rest q qs. a = pre @ rest \<and> matcher r (rev pre @ b, rest) = q # qs
        \<and> d = matched (rev pre @ b, rest) q
        \<and> (\<forall>pre' rest'. a = pre' @ rest' \<and> length pre' < length pre \<longrightarrow>
              matcher r (rev pre' @ b, rest') = []))"
proof (induction a arbitrary: b)
  case Nil
  show ?case by (auto split: list.splits)
next
  case (Cons c cs)
  show ?case
  proof (cases "matcher r (b, c # cs)")
    case (Cons q qs)
    have "exec r (b, c # cs) = Some (matched (b, c # cs) q)"
      using Cons by simp
    moreover have "(\<exists>pre rest q' qs'. c # cs = pre @ rest \<and> matcher r (rev pre @ b, rest) = q' # qs'
        \<and> d = matched (rev pre @ b, rest) q'
        \<and> (\<forall>pre' rest'. c # cs = pre' @ rest' \<and> length pre' < length pre \<longrightarrow>
              matcher r (rev pre' @ b, rest') = []))
      \<longleftrightarrow> d = matched (b, c # cs) q" (is "?L \<longleftrightarrow> ?R")
    proof
      assume ?L
      then obtain pre rest q' qs' where eq: "c # cs = pre @ rest"
        and m: "matcher r (rev pre @ b, rest) = q' # qs'"
        and d: "d = matched (rev pre @ b, rest) q'"
        and least: "\<forall>pre' rest'. c # cs = pre' @ rest' \<and> length pre' < length pre \<longrightarrow>
              matcher r (rev pre' @ b, rest') = []" by blast
      have "pre = []"
      proof (rule ccontr)
        assume "pre \<noteq> []"
        then have "c # cs = [] @ (c # cs) \<and> length ([] :: string) < length pre" by simp
        with least have "matcher r (rev [] @ b, c # cs) = []" by blast
        with Cons show False by simp
      qed
      with eq m d Cons show ?R by simp
    next
      assume ?R
      then have "c # cs = [] @ (c # cs) \<and> matcher r (rev [] @ b, c # cs) = q # qs
        \<and> d = matched (rev [] @ b, c # cs) q
        \<and> (\<forall>pre' rest'. c # cs = pre' @ rest' \<and> length pre' < length ([] :: string) \<longrightarrow>
              matcher r (rev pre' @ b, rest') = [])"
        using Cons by simp
      then show ?L by blast
    qed
    ultimately show ?thesis by auto
  next
    case Nil
    have e: "exec r (b, c # cs) = exec r (c # b, cs)"
      using Nil by simp
    have "(\<exists>pre rest q qs. c # cs = pre @ rest \<and> matcher r (rev pre @ b, rest) = q # qs
        \<and> d = matched (rev pre @ b, rest) q
        \<and> (\<forall>pre' rest'. c # cs = pre' @ rest' \<and> length pre' < length pre \<longrightarrow>
              matcher r (rev pre' @ b, rest') = []))
      \<longleftrightarrow> (\<exists>pre rest q qs. cs = pre @ rest \<and> matcher r (rev pre @ c # b, rest) = q # qs
        \<and> d = matched (rev pre @ c # b, rest) q
        \<and> (\<forall>pre' rest'. cs = pre' @ rest' \<and> length pre' < length pre \<longrightarrow>
              matcher r (rev pre' @ c # b, rest') = []))" (is "?L \<longleftrightarrow> ?R")
    proof
      assume ?L
      then obtain pre rest q qs where eq: "c # cs = pre @ rest"
        and m: "matcher r (rev pre @ b, rest) = q # qs"
        and d: "d = matched (rev pre @ b, rest) q"
        and least: "\<forall>pre' rest'. c # cs = pre' @ rest' \<and> length pre' < length pre \<longrightarrow>
              matcher r (rev pre' @ b, rest') = []" by blast
      from Nil m eq obtain pre1 where pre: "pre = c # pre1" and cs: "cs = pre1 @ rest"
        by (cases pre) auto
      have "matcher r (rev pre' @ c # b, rest') = []"
        if "cs = pre' @ rest'" "length pre' < length pre1" for pre' rest'
        using least [rule_format, of "c # pre'" rest'] that pre by simp
      with cs m d pre have "cs = pre1 @ rest \<and> matcher r (rev pre1 @ c # b, rest) = q # qs
        \<and> d = matched (rev pre1 @ c # b, rest) q
        \<and> (\<forall>pre' rest'. cs = pre' @ rest' \<and> length pre' < length pre1 \<longrightarrow>
              matcher r (rev pre' @ c # b, rest') = [])" by simp
      then show ?R by blast
    next
      assume ?R
      then obtain pre rest q qs where eq: "cs = pre @ rest"
        and m: "matcher r (rev pre @ c # b, rest) = q # qs"
        and d: "d = matched (rev pre @ c # b, rest) q"
        and least: "\<forall>pre' rest'. cs = pre' @ rest' \<and> length pre' < length pre \<longrightarrow>
              matcher r (rev pre' @ c # b, rest') = []" by blast
      have "matcher r (rev pre' @ b, rest') = []"
        if "c # cs = pre' @ rest'" "length pre' < length (c # pre)" for pre' rest'
      proof (cases pre')
        case Nil
        with that \<open>matcher r (b, c # cs) = []\<close> show ?thesis by simp
      next
        case (Cons x pre1)
        with that have "cs = pre1 @ rest'" "length pre1 < length pre" "x = c" by simp_all
        with least Cons show ?thesis by simp
      qed
      with eq m d have "c # cs = (c # pre) @ rest \<and> matcher r (rev (c # pre) @ b, rest) = q # qs
        \<and> d = matched (rev (c # pre) @ b, rest) q
        \<and> (\<forall>pre' rest'. c # cs = pre' @ rest' \<and> length pre' < length (c # pre) \<longrightarrow>
              matcher r (rev pre' @ b, rest') = [])" by simp
      then show ?L by blast
    qed
    with e Cons.IH [of "c # b"] show ?thesis by simp
  qed
qed

lemma seqs_Cons: "rs \<noteq> [] \<Longrightarrow> seqs (r # rs) = Seq r (seqs rs)"
  by (cases rs) simp_all

lemma concat_map_concat_map:
  "concat (map g (concat (map h xs))) = concat (map (\<lambda>x. concat (map g (h x))) xs)"
  by (induction xs) simp_all

lemma matcher_seqs_append:
  "rs \<noteq> [] \<Longrightarrow> ss \<noteq> [] \<Longrightarrow>
   matcher (seqs (rs @ ss)) p = concat (map (matcher (seqs ss)) (matcher (seqs rs) p))"
proof (induction rs arbitrary: p)
  case Nil
  then show ?case by simp
next
  case (Cons r rs)
  show ?case
  proof (cases "rs = []")
    case True
    with Cons.prems show ?thesis by (simp add: seqs_Cons)
  next
    case False
    then have "matcher (seqs ((r # rs) @ ss)) p
               = concat (map (matcher (seqs (rs @ ss))) (matcher r p))"
      by (simp add: seqs_Cons)
    also have "\<dots> = concat (map (\<lambda>x. concat (map (matcher (seqs ss)) (matcher (seqs rs) x)))
                         (matcher r p))"
    proof -
      have "matcher (seqs (rs @ ss))
            = (\<lambda>x. concat (map (matcher (seqs ss)) (matcher (seqs rs) x)))"
        by (rule ext) (rule Cons.IH [OF False Cons.prems(2)])
      then show ?thesis by (simp only:)
    qed
    also have "\<dots> = concat (map (matcher (seqs ss)) (matcher (seqs (r # rs)) p))"
      using False by (simp add: seqs_Cons concat_map_concat_map)
    finally show ?thesis .
  qed
qed

lemma concat_map_filter:
  "concat (map (\<lambda>q. if P q then [q] else []) xs) = filter P xs"
  by (induction xs) simp_all

lemma matcher_then_Boundary:
  "matcher (Seq r Boundary) p = filter atBoundary (matcher r p)"
proof -
  have "matcher Boundary = (\<lambda>q. if atBoundary q then [q] else [])"
    by (rule ext) simp
  then show ?thesis by (simp add: concat_map_filter)
qed

lemma rep_shorter_first:
  assumes sv: "\<forall>p. f p = [] \<or> (\<exists>x. f p = [x] \<and> length (snd x) < length (snd p))"
  shows "shorter_first (rep f n lo hi p)
         \<and> (\<forall>q\<in>set (rep f n lo hi p). length (snd q) \<le> length (snd p))"
proof (induction n arbitrary: lo hi p)
  case 0
  show ?case by (simp add: shorter_first_def)
next
  case (Suc n)
  show ?case
  proof (cases "hi = Some 0")
    case True
    then show ?thesis by (simp add: shorter_first_def)
  next
    case False
    from sv [rule_format, of p] show ?thesis
    proof
      assume "f p = []"
      with False show ?thesis by (simp add: shorter_first_def)
    next
      assume "\<exists>x. f p = [x] \<and> length (snd x) < length (snd p)"
      then obtain x where x: "f p = [x]" "length (snd x) < length (snd p)" by blast
      let ?rest = "rep f n (lo - 1) (map_option (\<lambda>h. h - 1) hi) x"
      have r: "rep f (Suc n) lo hi p = ?rest @ (if lo = 0 then [p] else [])"
        using False x by simp
      have IH: "shorter_first ?rest" "\<forall>q\<in>set ?rest. length (snd q) \<le> length (snd x)"
        using Suc.IH [of "lo - 1" "map_option (\<lambda>h. h - 1) hi" x] by simp_all
      have lt: "\<forall>q\<in>set ?rest. length (snd q) < length (snd p)"
        using IH(2) x(2) by fastforce
      have "shorter_first (?rest @ (if lo = 0 then [p] else []))"
        using IH(1) lt by (simp add: shorter_first_def sorted_wrt_append)
      moreover have "\<forall>q\<in>set (?rest @ (if lo = 0 then [p] else [])).
                       length (snd q) \<le> length (snd p)"
        using lt by fastforce
      ultimately show ?thesis
        unfolding r by blast
    qed
  qed
qed

lemma shorter_first_hd:
  assumes "shorter_first qs" and "q \<in> set qs"
  shows "length (snd (hd qs)) \<le> length (snd q)"
proof (cases qs)
  case Nil
  with assms(2) show ?thesis by simp
next
  case (Cons a as)
  with assms show ?thesis by (auto simp: shorter_first_def)
qed

lemma shorter_first_filter: "shorter_first qs \<Longrightarrow> shorter_first (filter P qs)"
  by (simp add: shorter_first_def sorted_wrt_filter)

lemma hd_concat_constant:
  assumes same: "\<forall>y\<in>set xs. y = x" and q: "q \<in> set (concat (map g xs))"
  shows "hd (concat (map g xs)) = hd (g x) \<and> q \<in> set (g x)"
proof (cases xs)
  case Nil
  with q show ?thesis by simp
next
  case (Cons y ys)
  with same have y: "y = x" by simp
  from q same have qx: "q \<in> set (g x)" by auto
  then have "g x \<noteq> []" by auto
  with Cons y qx show ?thesis by simp
qed

text \<open>A matcher whose head part is deterministic and whose tail is a run of characters,
  cut at a word boundary.\<close>

lemma head_then_run:
  assumes head: "\<forall>x\<in>set (matcher (seqs rs) p). \<forall>y\<in>set (matcher (seqs rs) p). x = y"
    and sv: "\<forall>p. matcher ch p = [] \<or> (\<exists>x. matcher ch p = [x] \<and> length (snd x) < length (snd p))"
    and rs: "rs \<noteq> []"
    and q: "q \<in> set (matcher (seqs (Boundary # rs @ [Repeat lo hi ch, Boundary])) p)"
  shows "length (snd (hd (matcher (seqs (Boundary # rs @ [Repeat lo hi ch, Boundary])) p)))
         \<le> length (snd q)"
proof -
  let ?tail = "\<lambda>x. filter atBoundary (matcher (Repeat lo hi ch) x)"
  have m: "matcher (seqs (Boundary # rs @ [Repeat lo hi ch, Boundary])) p
           = (if atBoundary p then concat (map ?tail (matcher (seqs rs) p)) else [])"
  proof -
    have "matcher (seqs (rs @ [Repeat lo hi ch, Boundary])) p
          = concat (map (matcher (seqs [Repeat lo hi ch, Boundary])) (matcher (seqs rs) p))"
      using rs by (intro matcher_seqs_append) simp_all
    moreover have "matcher (seqs [Repeat lo hi ch, Boundary]) = ?tail"
      by (rule ext) (simp only: seqs.simps matcher_then_Boundary)
    ultimately show ?thesis
      using rs by (simp add: seqs_Cons)
  qed
  with q have b: "atBoundary p" and q': "q \<in> set (concat (map ?tail (matcher (seqs rs) p)))"
    by (simp_all split: if_splits)
  from q' obtain x where x: "x \<in> set (matcher (seqs rs) p)" by auto
  with head have "\<forall>y\<in>set (matcher (seqs rs) p). y = x" by blast
  from hd_concat_constant [OF this q']
  have h: "hd (concat (map ?tail (matcher (seqs rs) p))) = hd (?tail x)" and qx: "q \<in> set (?tail x)"
    by simp_all
  have "shorter_first (?tail x)"
    using rep_shorter_first [OF sv] by (simp add: shorter_first_filter)
  from shorter_first_hd [OF this qx] show ?thesis
    using m b h by simp
qed

lemma single_Chr:
  "matcher (Chr k) p = [] \<or> (\<exists>x. matcher (Chr k) p = [x] \<and> length (snd x) < length (snd p))"
  by (cases "snd p") auto

lemma single_NotAhead_Chr:
  "matcher (Seq (NotAhead (Chr k1)) (Chr k2)) p = []
   \<or> (\<exists>x. matcher (Seq (NotAhead (Chr k1)) (Chr k2)) p = [x] \<and> length (snd x) < length (snd p))"
  by (cases "snd p") auto

lemma split_at_first:
  "c \<notin> set u \<Longrightarrow> c \<notin> set u' \<Longrightarrow> u @ c # r = u' @ c # r' \<Longrightarrow> u = u' \<and> r = r'"
proof (induction u arbitrary: u')
  case Nil
  then show ?case by (cases u') auto
next
  case (Cons a u)
  then show ?case by (cases u') auto
qed

lemma ends_at_slash:
  assumes "recognises f A"
    and A: "\<And>w. w \<in> A \<Longrightarrow> \<exists>u. w = u @ [CHR ''/''] \<and> CHR ''/'' \<notin> set u"
    and "x \<in> set (f p)" and "y \<in> set (f p)"
  shows "x = y"
proof -
  from assms(1,3) obtain w where w: "w \<in> A" "consumed p x w"
    using recognisesD by blast
  from assms(1,4) obtain w' where w': "w' \<in> A" "consumed p y w'"
    using recognisesD by blast
  from A [OF w(1)] obtain u where u: "w = u @ [CHR ''/'']" "CHR ''/'' \<notin> set u" by blast
  from A [OF w'(1)] obtain u' where u': "w' = u' @ [CHR ''/'']" "CHR ''/'' \<notin> set u'" by blast
  have "u @ CHR ''/'' # snd x = u' @ CHR ''/'' # snd y"
    using w(2) w'(2) u(1) u'(1) by (simp add: consumed_def)
  then have "u = u' \<and> snd x = snd y"
    using u(2) u'(2) by (rule split_at_first [rotated 2])
  then show ?thesis
    using w(2) w'(2) u(1) u'(1) by (cases x; cases y) (simp add: consumed_def)
qed

lemma isDigits_no_slash: "isDigits w \<Longrightarrow> CHR ''/'' \<notin> set w"
  by (auto simp: isDigits_def isDigit_def)

lemma doiRegex_head_unique:
  assumes "x \<in> set (matcher (seqs [Chr (Exactly CHR ''1''), Chr (Exactly CHR ''0''),
              Chr (Exactly CHR ''.''), Repeat 4 None (Chr Digit),
              Repeat 0 None (Seq (Chr (Exactly CHR ''.'')) (Repeat 1 None (Chr Digit))),
              Chr (Exactly CHR ''/'')]) p)"
    and "y \<in> set (matcher (seqs [Chr (Exactly CHR ''1''), Chr (Exactly CHR ''0''),
              Chr (Exactly CHR ''.''), Repeat 4 None (Chr Digit),
              Repeat 0 None (Seq (Chr (Exactly CHR ''.'')) (Repeat 1 None (Chr Digit))),
              Chr (Exactly CHR ''/'')]) p)"
  shows "x = y"
proof -
  have digits: "recognises (matcher (Repeat 4 None (Chr Digit))) {w. 4 \<le> length w \<and> isDigits w}"
    using recognises_digits [of 4 None] by (simp add: le_opt_def)
  note step = recognises_Seq
  have r: "recognises (matcher (seqs [Chr (Exactly CHR ''1''), Chr (Exactly CHR ''0''),
              Chr (Exactly CHR ''.''), Repeat 4 None (Chr Digit),
              Repeat 0 None (Seq (Chr (Exactly CHR ''.'')) (Repeat 1 None (Chr Digit))),
              Chr (Exactly CHR ''/'')]))
        {u @ v | u v. u \<in> {[CHR ''1'']} \<and> v \<in> {u @ v | u v. u \<in> {[CHR ''0'']} \<and> v \<in>
       {u @ v | u v. u \<in> {[CHR ''.'']} \<and> v \<in> {u @ v | u v. u \<in> {w. 4 \<le> length w \<and> isDigits w} \<and> v \<in>
       {u @ v | u v. u \<in> {concat (map ((#) CHR ''.'') segs) | segs. \<forall>g\<in>set segs. g \<noteq> [] \<and> isDigits g} \<and> v \<in>
       {[CHR ''/'']}}}}}}"
    unfolding seqs.simps
    by (rule step [OF recognises_Exactly step [OF recognises_Exactly step [OF recognises_Exactly
          step [OF digits step [OF recognises_segments recognises_Exactly]]]]])
  show ?thesis
  proof (rule ends_at_slash [OF r _ assms])
    fix w
    assume "w \<in> {u @ v | u v. u \<in> {[CHR ''1'']} \<and> v \<in> {u @ v | u v. u \<in> {[CHR ''0'']} \<and> v \<in>
       {u @ v | u v. u \<in> {[CHR ''.'']} \<and> v \<in> {u @ v | u v. u \<in> {w. 4 \<le> length w \<and> isDigits w} \<and> v \<in>
       {u @ v | u v. u \<in> {concat (map ((#) CHR ''.'') segs) | segs. \<forall>g\<in>set segs. g \<noteq> [] \<and> isDigits g} \<and> v \<in>
       {[CHR ''/'']}}}}}}"
    then obtain ds segs where w: "w = (''10.'' @ ds @ concat (map ((#) CHR ''.'') segs)) @ [CHR ''/'']"
      and ds: "isDigits ds" and segs: "\<forall>g\<in>set segs. g \<noteq> [] \<and> isDigits g"
      by auto
    have "CHR ''/'' \<notin> set (''10.'' @ ds @ concat (map ((#) CHR ''.'') segs))"
      using isDigits_no_slash [OF ds] segs isDigits_no_slash by auto
    with w show "\<exists>u. w = u @ [CHR ''/''] \<and> CHR ''/'' \<notin> set u" by blast
  qed
qed

lemma doiRegex_legacy_head_unique:
  assumes "x \<in> set (matcher (seqs [Chr (Exactly CHR ''1''), Chr (Exactly CHR ''0''),
              Chr (Exactly CHR ''.''), Repeat 4 (Some 9) (Chr Digit), Chr (Exactly CHR ''/'')]) p)"
    and "y \<in> set (matcher (seqs [Chr (Exactly CHR ''1''), Chr (Exactly CHR ''0''),
              Chr (Exactly CHR ''.''), Repeat 4 (Some 9) (Chr Digit), Chr (Exactly CHR ''/'')]) p)"
  shows "x = y"
proof -
  have digits: "recognises (matcher (Repeat 4 (Some 9) (Chr Digit)))
                  {w. 4 \<le> length w \<and> length w \<le> 9 \<and> isDigits w}"
    using recognises_digits [of 4 "Some 9"] by (simp add: le_opt_def)
  note step = recognises_Seq
  have r: "recognises (matcher (seqs [Chr (Exactly CHR ''1''), Chr (Exactly CHR ''0''),
              Chr (Exactly CHR ''.''), Repeat 4 (Some 9) (Chr Digit), Chr (Exactly CHR ''/'')]))
        {u @ v | u v. u \<in> {[CHR ''1'']} \<and> v \<in> {u @ v | u v. u \<in> {[CHR ''0'']} \<and> v \<in>
       {u @ v | u v. u \<in> {[CHR ''.'']} \<and> v \<in>
       {u @ v | u v. u \<in> {w. 4 \<le> length w \<and> length w \<le> 9 \<and> isDigits w} \<and> v \<in>
       {[CHR ''/'']}}}}}"
    unfolding seqs.simps
    by (rule step [OF recognises_Exactly step [OF recognises_Exactly step [OF recognises_Exactly
          step [OF digits recognises_Exactly]]]])
  show ?thesis
  proof (rule ends_at_slash [OF r _ assms])
    fix w
    assume "w \<in> {u @ v | u v. u \<in> {[CHR ''1'']} \<and> v \<in> {u @ v | u v. u \<in> {[CHR ''0'']} \<and> v \<in>
       {u @ v | u v. u \<in> {[CHR ''.'']} \<and> v \<in>
       {u @ v | u v. u \<in> {w. 4 \<le> length w \<and> length w \<le> 9 \<and> isDigits w} \<and> v \<in>
       {[CHR ''/'']}}}}}"
    then obtain ds where w: "w = (''10.'' @ ds) @ [CHR ''/'']" and ds: "isDigits ds"
      by auto
    have "CHR ''/'' \<notin> set (''10.'' @ ds)"
      using isDigits_no_slash [OF ds] by auto
    with w show "\<exists>u. w = u @ [CHR ''/''] \<and> CHR ''/'' \<notin> set u" by blast
  qed
qed

lemma doiRegex_first_longest:
  assumes "q \<in> set (matcher doiRegex p)"
  shows "length (snd (hd (matcher doiRegex p))) \<le> length (snd q)"
proof -
  have eq: "doiRegex = seqs (Boundary # [Chr (Exactly CHR ''1''), Chr (Exactly CHR ''0''),
              Chr (Exactly CHR ''.''), Repeat 4 None (Chr Digit),
              Repeat 0 None (Seq (Chr (Exactly CHR ''.'')) (Repeat 1 None (Chr Digit))),
              Chr (Exactly CHR ''/'')]
            @ [Repeat 1 None
                 (Seq (NotAhead (Chr (OneOf [CHR 0x22, CHR ''&'', CHR 0x27, CHR ''<'', CHR ''>''])))
                      (Chr NonSpace)), Boundary])"
    by (simp add: doiRegex_def)
  show ?thesis
    unfolding eq
  proof (rule head_then_run)
    show "\<forall>x\<in>set (matcher (seqs [Chr (Exactly CHR ''1''), Chr (Exactly CHR ''0''),
              Chr (Exactly CHR ''.''), Repeat 4 None (Chr Digit),
              Repeat 0 None (Seq (Chr (Exactly CHR ''.'')) (Repeat 1 None (Chr Digit))),
              Chr (Exactly CHR ''/'')]) p).
          \<forall>y\<in>set (matcher (seqs [Chr (Exactly CHR ''1''), Chr (Exactly CHR ''0''),
              Chr (Exactly CHR ''.''), Repeat 4 None (Chr Digit),
              Repeat 0 None (Seq (Chr (Exactly CHR ''.'')) (Repeat 1 None (Chr Digit))),
              Chr (Exactly CHR ''/'')]) p). x = y"
      using doiRegex_head_unique by blast
    show "\<forall>p. matcher (Seq (NotAhead (Chr (OneOf [CHR 0x22, CHR ''&'', CHR 0x27, CHR ''<'', CHR ''>''])))
                      (Chr NonSpace)) p = []
       \<or> (\<exists>x. matcher (Seq (NotAhead (Chr (OneOf [CHR 0x22, CHR ''&'', CHR 0x27, CHR ''<'', CHR ''>''])))
                      (Chr NonSpace)) p = [x] \<and> length (snd x) < length (snd p))"
      using single_NotAhead_Chr by blast
    show "q \<in> set (matcher (seqs (Boundary # [Chr (Exactly CHR ''1''), Chr (Exactly CHR ''0''),
              Chr (Exactly CHR ''.''), Repeat 4 None (Chr Digit),
              Repeat 0 None (Seq (Chr (Exactly CHR ''.'')) (Repeat 1 None (Chr Digit))),
              Chr (Exactly CHR ''/'')]
            @ [Repeat 1 None
                 (Seq (NotAhead (Chr (OneOf [CHR 0x22, CHR ''&'', CHR 0x27, CHR ''<'', CHR ''>''])))
                      (Chr NonSpace)), Boundary])) p)"
      using assms unfolding eq .
  qed simp
qed

lemma doiRegex_legacy_first_longest:
  assumes "q \<in> set (matcher doiRegex_legacy p)"
  shows "length (snd (hd (matcher doiRegex_legacy p))) \<le> length (snd q)"
proof -
  have eq: "doiRegex_legacy = seqs (Boundary # [Chr (Exactly CHR ''1''), Chr (Exactly CHR ''0''),
              Chr (Exactly CHR ''.''), Repeat 4 (Some 9) (Chr Digit), Chr (Exactly CHR ''/'')]
            @ [Repeat 1 None (Chr NonSpace), Boundary])"
    by (simp add: doiRegex_legacy_def)
  show ?thesis
    unfolding eq
  proof (rule head_then_run)
    show "\<forall>x\<in>set (matcher (seqs [Chr (Exactly CHR ''1''), Chr (Exactly CHR ''0''),
              Chr (Exactly CHR ''.''), Repeat 4 (Some 9) (Chr Digit), Chr (Exactly CHR ''/'')]) p).
          \<forall>y\<in>set (matcher (seqs [Chr (Exactly CHR ''1''), Chr (Exactly CHR ''0''),
              Chr (Exactly CHR ''.''), Repeat 4 (Some 9) (Chr Digit), Chr (Exactly CHR ''/'')]) p).
            x = y"
      using doiRegex_legacy_head_unique by blast
    show "\<forall>p. matcher (Chr NonSpace) p = []
       \<or> (\<exists>x. matcher (Chr NonSpace) p = [x] \<and> length (snd x) < length (snd p))"
      using single_Chr by blast
    show "q \<in> set (matcher (seqs (Boundary # [Chr (Exactly CHR ''1''), Chr (Exactly CHR ''0''),
              Chr (Exactly CHR ''.''), Repeat 4 (Some 9) (Chr Digit), Chr (Exactly CHR ''/'')]
            @ [Repeat 1 None (Chr NonSpace), Boundary])) p)"
      using assms unfolding eq .
  qed simp
qed

lemma consumed_exact:
  "consumed (rev pre, d @ post) (rev d @ rev pre, post) d' \<longleftrightarrow> d' = d"
  by (auto simp: consumed_def)

lemma match_characterisation:
  assumes char: "\<And>p q. q \<in> set (matcher rx p)
                   \<longleftrightarrow> atBoundary p \<and> (\<exists>d. shape d \<and> consumed p q d) \<and> atBoundary q"
    and longest: "\<forall>p q. q \<in> set (matcher rx p)
                   \<longrightarrow> length (snd (hd (matcher rx p))) \<le> length (snd q)"
  shows "(match raw rx = None
          \<and> (\<forall>pre d post. raw = pre @ d @ post \<longrightarrow> \<not> occursAt shape pre d post))
       \<or> (\<exists>pre d post. match raw rx = Some d \<and> raw = pre @ d @ post
             \<and> occursAt shape pre d post
             \<and> (\<forall>pre' d' post'. raw = pre' @ d' @ post' \<and> occursAt shape pre' d' post' \<longrightarrow>
                   length pre < length pre' \<or> (pre' = pre \<and> length d' \<le> length d)))"
proof -
  have occ: "occursAt shape pre d post
             \<longleftrightarrow> (rev d @ rev pre, post) \<in> set (matcher rx (rev pre, d @ post))" for pre d post
    unfolding char occursAt_def consumed_exact by blast
  show ?thesis
  proof (cases "match raw rx")
    case None
    then have none: "\<forall>pre rest. raw = pre @ rest \<longrightarrow> matcher rx (rev pre @ [], rest) = []"
      by (simp only: match_def exec_None_iff)
    have "\<not> occursAt shape pre d post" if "raw = pre @ d @ post" for pre d post
      using none [rule_format, of pre "d @ post"] that occ [of pre d post] by simp
    with None show ?thesis by blast
  next
    case (Some d)
    then obtain pre rest q qs where split: "raw = pre @ rest"
      and m: "matcher rx (rev pre @ [], rest) = q # qs"
      and d: "d = matched (rev pre @ [], rest) q"
      and least: "\<forall>pre' rest'. raw = pre' @ rest' \<and> length pre' < length pre \<longrightarrow>
              matcher rx (rev pre' @ [], rest') = []"
      unfolding match_def exec_Some_iff by blast
    have q: "q \<in> set (matcher rx (rev pre, rest))"
      using m by simp
    then obtain d0 where d0: "shape d0" "consumed (rev pre, rest) q d0"
      and b: "atBoundary (rev pre, rest)" "atBoundary q"
      unfolding char by blast
    have dd: "d = d0"
      using d d0(2) by (simp add: consumed_matched)
    have rest: "rest = d @ snd q" and fq: "fst q = rev d @ rev pre"
      using d0(2) dd by (simp_all add: consumed_def)
    then have qeq: "q = (rev d @ rev pre, snd q)"
      by (cases q) simp
    have o: "occursAt shape pre d (snd q)"
      using d0(1) b dd rest qeq by (simp add: occursAt_def)
    have left: "length pre < length pre' \<or> (pre' = pre \<and> length d' \<le> length d)"
      if t: "raw = pre' @ d' @ post'" and o': "occursAt shape pre' d' post'" for pre' d' post'
    proof -
      have mem: "(rev d' @ rev pre', post') \<in> set (matcher rx (rev pre', d' @ post'))"
        using o' occ by blast
      have "\<not> length pre' < length pre"
      proof
        assume "length pre' < length pre"
        with least t have "matcher rx (rev pre' @ [], d' @ post') = []" by blast
        with mem show False by simp
      qed
      then have le: "length pre \<le> length pre'" by simp
      show ?thesis
      proof (cases "length pre < length pre'")
        case True
        then show ?thesis by simp
      next
        case False
        with le have "length pre' = length pre" by simp
        with t split have pre: "pre' = pre" and r: "rest = d' @ post'"
          by (simp_all add: append_eq_append_conv)
        have "length (snd (hd (matcher rx (rev pre, rest)))) \<le> length post'"
          using longest [rule_format, OF mem [unfolded pre, folded r]] by simp
        then have "length (snd q) \<le> length post'"
          using m by simp
        moreover have "length d + length (snd q) = length d' + length post'"
          using rest r by (metis length_append)
        ultimately show ?thesis
          using pre by simp
      qed
    qed
    have "match raw rx = Some d \<and> raw = pre @ d @ snd q \<and> occursAt shape pre d (snd q)
          \<and> (\<forall>pre' d' post'. raw = pre' @ d' @ post' \<and> occursAt shape pre' d' post' \<longrightarrow>
                   length pre < length pre' \<or> (pre' = pre \<and> length d' \<le> length d))"
      using Some split rest o left by blast
    then show ?thesis by blast
  qed
qed

lemma extractDoi_known: "truthy known \<Longrightarrow> extractDoi rx known raw = known"
  by (simp add: extractDoi_def)

lemma extractDoi_scan:
  "\<not> truthy known \<Longrightarrow>
   extractDoi rx known raw = (case match raw rx of Some m0 \<Rightarrow> Some m0 | None \<Rightarrow> known)"
  by (simp add: extractDoi_def)

lemma isWhiteSpace_not_word: "isWhiteSpace c \<Longrightarrow> \<not> isWordChar c"
  by (auto simp: isWhiteSpace_def isWordChar_def)

lemma isDigit_not_space: "isDigit c \<Longrightarrow> \<not> isWhiteSpace c"
  by (auto simp: isWhiteSpace_def isDigit_def)

lemma doiShape_no_space:
  assumes "doiShape d" and "c \<in> set d"
  shows "\<not> isWhiteSpace c"
proof -
  from assms(1) obtain ds segs sfx where
    d: "d = ''10.'' @ ds @ concat (map ((#) CHR ''.'') segs) @ ''/'' @ sfx"
    and ds: "isDigits ds" and segs: "\<forall>g\<in>set segs. g \<noteq> [] \<and> isDigits g"
    and sfx: "\<forall>c\<in>set sfx. doiSuffixChar c"
    unfolding doiShape_def by blast
  have lit: "\<not> isWhiteSpace CHR ''1''" "\<not> isWhiteSpace CHR ''0''" "\<not> isWhiteSpace CHR ''.''"
    "\<not> isWhiteSpace CHR ''/''"
    by (simp_all add: isWhiteSpace_def)
  have seg_chars: "x = CHR ''.'' \<or> (\<exists>g\<in>set segs. x \<in> set g)"
    if "x \<in> set (concat (map ((#) CHR ''.'') segs))" for x
    using that by (induction segs) auto
  from assms(2) d have "c \<in> set ''10./'' \<or> c \<in> set ds
      \<or> c \<in> set (concat (map ((#) CHR ''.'') segs)) \<or> c \<in> set sfx"
    by auto
  with seg_chars [of c] consider "c \<in> set ''10./''" | "c \<in> set ds"
    | g where "g \<in> set segs" "c \<in> set g" | "c \<in> set sfx"
    by auto
  then show ?thesis
  proof cases
    case 1
    with lit show ?thesis by auto
  next
    case 2
    with ds show ?thesis by (auto simp: isDigits_def isDigit_not_space)
  next
    case 3
    with segs show ?thesis by (auto simp: isDigits_def isDigit_not_space)
  next
    case 4
    with sfx show ?thesis by (auto simp: doiSuffixChar_def)
  qed
qed

lemma doiShape_example: "doiShape ''10.1234/abcd.5''"
  unfolding doiShape_def
  by (rule exI [of _ "''1234''"], rule exI [of _ "[]"], rule exI [of _ "''abcd.5''"])
     (simp add: isDigits_def isDigit_def doiSuffixChar_def isWhiteSpace_def)

lemma example_end_boundary:
  assumes "post = [] \<or> isWhiteSpace (hd post)"
  shows "atBoundary (rev ''10.1234/abcd.5'' @ rev pre, post)"
proof -
  have "wordBefore (rev ''10.1234/abcd.5'' @ rev pre, post)"
    by (simp add: wordBefore_def isWordChar_def)
  moreover have "\<not> wordAfter (rev ''10.1234/abcd.5'' @ rev pre, post)"
    using assms by (cases post) (auto simp: wordAfter_def isWhiteSpace_not_word)
  ultimately show ?thesis by (simp add: atBoundary_def)
qed

lemma doiShape_legacy_no_space:
  assumes "doiShape_legacy d" and "c \<in> set d"
  shows "\<not> isWhiteSpace c"
proof -
  from assms(1) obtain ds sfx where
    d: "d = ''10.'' @ ds @ ''/'' @ sfx"
    and ds: "isDigits ds" and sfx: "\<forall>c\<in>set sfx. \<not> isWhiteSpace c"
    unfolding doiShape_legacy_def by blast
  have lit: "\<not> isWhiteSpace CHR ''1''" "\<not> isWhiteSpace CHR ''0''" "\<not> isWhiteSpace CHR ''.''"
    "\<not> isWhiteSpace CHR ''/''"
    by (simp_all add: isWhiteSpace_def)
  from assms(2) d consider "c \<in> set ''10./''" | "c \<in> set ds" | "c \<in> set sfx"
    by auto
  then show ?thesis
  proof cases
    case 1
    with lit show ?thesis by auto
  next
    case 2
    with ds show ?thesis by (auto simp: isDigits_def isDigit_not_space)
  next
    case 3
    with sfx show ?thesis by auto
  qed
qed

lemma doiShape_legacy_example: "doiShape_legacy ''10.1234/abcd.5''"
  unfolding doiShape_legacy_def
  by (rule exI [of _ "''1234''"], rule exI [of _ "''abcd.5''"])
     (simp add: isDigits_def isDigit_def isWhiteSpace_def)

lemma match_delimited:
  assumes mc: "(match raw rx = None
          \<and> (\<forall>pre d post. raw = pre @ d @ post \<longrightarrow> \<not> occursAt shape pre d post))
       \<or> (\<exists>pre d post. match raw rx = Some d \<and> raw = pre @ d @ post
             \<and> occursAt shape pre d post
             \<and> (\<forall>pre' d' post'. raw = pre' @ d' @ post' \<and> occursAt shape pre' d' post' \<longrightarrow>
                   length pre < length pre' \<or> (pre' = pre \<and> length d' \<le> length d)))"
    and nospace: "\<And>d c. shape d \<Longrightarrow> c \<in> set d \<Longrightarrow> \<not> isWhiteSpace c"
    and tx: "raw = pre @ D @ post"
    and occ: "occursAt shape pre D post"
    and sp: "post = [] \<or> isWhiteSpace (hd post)"
    and first: "\<forall>pre' d' post'. raw = pre' @ d' @ post' \<and> occursAt shape pre' d' post' \<longrightarrow>
                  length pre \<le> length pre'"
  shows "match raw rx = Some D"
proof -
  from mc tx occ obtain pre2 d post2 where m: "match raw rx = Some d"
    and t2: "raw = pre2 @ d @ post2" and o2: "occursAt shape pre2 d post2"
    and left: "\<forall>pre' d' post'. raw = pre' @ d' @ post' \<and> occursAt shape pre' d' post' \<longrightarrow>
                   length pre2 < length pre' \<or> (pre' = pre2 \<and> length d' \<le> length d)"
    by blast
  from first t2 o2 have "length pre \<le> length pre2" by blast
  moreover from left tx occ have "length pre2 < length pre \<or> (pre = pre2 \<and> length D \<le> length d)"
    by blast
  ultimately have pre: "pre = pre2" and len: "length D \<le> length d" by auto
  from tx t2 pre have eq: "D @ post = d @ post2" by simp
  with len obtain e where e: "d = D @ e" "post = e @ post2"
    by (auto simp: append_eq_append_conv2)
  have "e = []"
  proof (rule ccontr)
    assume ne: "e \<noteq> []"
    then have "hd post = hd e" "hd e \<in> set d"
      using e by simp_all
    moreover from ne e sp have "isWhiteSpace (hd post)" by auto
    moreover from o2 have "shape d" by (simp add: occursAt_def)
    ultimately show False using nospace by metis
  qed
  with e m show ?thesis by simp
qed

text \<open>
  C8, as amended. Identifier extraction depends on the text and the known identifier
  only. A known identifier that is a non-empty string is returned. Otherwise the text is
  scanned: if no substring that has the DOI form and stands between two word boundaries
  occurs in the text, the known identifier (absent or empty) is returned as it is;
  otherwise the result is such a substring, the one that starts leftmost and, among
  those starting there, the longest. The DOI form is the one of the pattern in use
  (\<open>doiShape\<close> for \<^verbatim>\<open>api/verify.ts\<close> and \<^verbatim>\<open>src/services/geminiService.ts\<close>,
  \<open>doiShape_legacy\<close> for the third file). In particular, where \<^verbatim>\<open>10.1234/abcd.5\<close> begins at
  a word boundary, is followed by white space or the end of the text, and no occurrence
  begins before it, the result is exactly \<^verbatim>\<open>10.1234/abcd.5\<close>.
\<close>

theorem identifier_extraction:
  "(truthy known \<longrightarrow>
      extractDoi doiRegex known raw = known \<and> extractDoi doiRegex_legacy known raw = known)
   \<and> (\<not> truthy known \<longrightarrow>
        (extractDoi doiRegex known raw = known
           \<and> (\<forall>pre d post. raw = pre @ d @ post \<longrightarrow> \<not> occursAt doiShape pre d post))
      \<or> (\<exists>pre d post. extractDoi doiRegex known raw = Some d \<and> raw = pre @ d @ post
            \<and> occursAt doiShape pre d post
            \<and> (\<forall>pre' d' post'. raw = pre' @ d' @ post' \<and> occursAt doiShape pre' d' post' \<longrightarrow>
                  length pre < length pre' \<or> (pre' = pre \<and> length d' \<le> length d))))
   \<and> (\<not> truthy known \<longrightarrow>
        (extractDoi doiRegex_legacy known raw = known
           \<and> (\<forall>pre d post. raw = pre @ d @ post \<longrightarrow> \<not> occursAt doiShape_legacy pre d post))
      \<or> (\<exists>pre d post. extractDoi doiRegex_legacy known raw = Some d \<and> raw = pre @ d @ post
            \<and> occursAt doiShape_legacy pre d post
            \<and> (\<forall>pre' d' post'. raw = pre' @ d' @ post' \<and> occursAt doiShape_legacy pre' d' post' \<longrightarrow>
                  length pre < length pre' \<or> (pre' = pre \<and> length d' \<le> length d))))
   \<and> (\<not> truthy known \<and> raw = lead @ ''10.1234/abcd.5'' @ trail
        \<and> atBoundary (rev lead, ''10.1234/abcd.5'' @ trail)
        \<and> (trail = [] \<or> isWhiteSpace (hd trail))
        \<and> (\<forall>pre' d' post'. raw = pre' @ d' @ post' \<and> occursAt doiShape pre' d' post' \<longrightarrow>
              length lead \<le> length pre')
      \<longrightarrow> extractDoi doiRegex known raw = Some ''10.1234/abcd.5'')
   \<and> (\<not> truthy known \<and> raw = lead @ ''10.1234/abcd.5'' @ trail
        \<and> atBoundary (rev lead, ''10.1234/abcd.5'' @ trail)
        \<and> (trail = [] \<or> isWhiteSpace (hd trail))
        \<and> (\<forall>pre' d' post'. raw = pre' @ d' @ post' \<and> occursAt doiShape_legacy pre' d' post' \<longrightarrow>
              length lead \<le> length pre')
      \<longrightarrow> extractDoi doiRegex_legacy known raw = Some ''10.1234/abcd.5'')"
proof -
  have "\<forall>p q. q \<in> set (matcher doiRegex p)
          \<longrightarrow> length (snd (hd (matcher doiRegex p))) \<le> length (snd q)"
    using doiRegex_first_longest by blast
  note mc = match_characterisation
    [where rx = doiRegex and shape = doiShape and raw = raw, OF matcher_doiRegex this]
  have "\<forall>p q. q \<in> set (matcher doiRegex_legacy p)
          \<longrightarrow> length (snd (hd (matcher doiRegex_legacy p))) \<le> length (snd q)"
    using doiRegex_legacy_first_longest by blast
  note mcl = match_characterisation
    [where rx = doiRegex_legacy and shape = doiShape_legacy and raw = raw,
      OF matcher_doiRegex_legacy this]
  have 1: "truthy known \<longrightarrow>
      extractDoi doiRegex known raw = known \<and> extractDoi doiRegex_legacy known raw = known"
    by (simp add: extractDoi_known)
  have 2: "\<not> truthy known \<longrightarrow>
        (extractDoi doiRegex known raw = known
           \<and> (\<forall>pre d post. raw = pre @ d @ post \<longrightarrow> \<not> occursAt doiShape pre d post))
      \<or> (\<exists>pre d post. extractDoi doiRegex known raw = Some d \<and> raw = pre @ d @ post
            \<and> occursAt doiShape pre d post
            \<and> (\<forall>pre' d' post'. raw = pre' @ d' @ post' \<and> occursAt doiShape pre' d' post' \<longrightarrow>
                  length pre < length pre' \<or> (pre' = pre \<and> length d' \<le> length d)))"
  proof
    assume k: "\<not> truthy known"
    from mc show "(extractDoi doiRegex known raw = known
           \<and> (\<forall>pre d post. raw = pre @ d @ post \<longrightarrow> \<not> occursAt doiShape pre d post))
      \<or> (\<exists>pre d post. extractDoi doiRegex known raw = Some d \<and> raw = pre @ d @ post
            \<and> occursAt doiShape pre d post
            \<and> (\<forall>pre' d' post'. raw = pre' @ d' @ post' \<and> occursAt doiShape pre' d' post' \<longrightarrow>
                  length pre < length pre' \<or> (pre' = pre \<and> length d' \<le> length d)))"
      unfolding extractDoi_scan [OF k]
      by (elim disjE conjE exE) (simp_all, blast)
  qed
  have 3: "\<not> truthy known \<longrightarrow>
        (extractDoi doiRegex_legacy known raw = known
           \<and> (\<forall>pre d post. raw = pre @ d @ post \<longrightarrow> \<not> occursAt doiShape_legacy pre d post))
      \<or> (\<exists>pre d post. extractDoi doiRegex_legacy known raw = Some d \<and> raw = pre @ d @ post
            \<and> occursAt doiShape_legacy pre d post
            \<and> (\<forall>pre' d' post'. raw = pre' @ d' @ post' \<and> occursAt doiShape_legacy pre' d' post' \<longrightarrow>
                  length pre < length pre' \<or> (pre' = pre \<and> length d' \<le> length d)))"
  proof
    assume k: "\<not> truthy known"
    from mcl show "(extractDoi doiRegex_legacy known raw = known
           \<and> (\<forall>pre d post. raw = pre @ d @ post \<longrightarrow> \<not> occursAt doiShape_legacy pre d post))
      \<or> (\<exists>pre d post. extractDoi doiRegex_legacy known raw = Some d \<and> raw = pre @ d @ post
            \<and> occursAt doiShape_legacy pre d post
            \<and> (\<forall>pre' d' post'. raw = pre' @ d' @ post' \<and> occursAt doiShape_legacy pre' d' post' \<longrightarrow>
                  length pre < length pre' \<or> (pre' = pre \<and> length d' \<le> length d)))"
      unfolding extractDoi_scan [OF k]
      by (elim disjE conjE exE) (simp_all, blast)
  qed
  have 4: "\<not> truthy known \<and> raw = lead @ ''10.1234/abcd.5'' @ trail
        \<and> atBoundary (rev lead, ''10.1234/abcd.5'' @ trail)
        \<and> (trail = [] \<or> isWhiteSpace (hd trail))
        \<and> (\<forall>pre' d' post'. raw = pre' @ d' @ post' \<and> occursAt doiShape pre' d' post' \<longrightarrow>
              length lead \<le> length pre')
      \<longrightarrow> extractDoi doiRegex known raw = Some ''10.1234/abcd.5''"
  proof
    assume a: "\<not> truthy known \<and> raw = lead @ ''10.1234/abcd.5'' @ trail
        \<and> atBoundary (rev lead, ''10.1234/abcd.5'' @ trail)
        \<and> (trail = [] \<or> isWhiteSpace (hd trail))
        \<and> (\<forall>pre' d' post'. raw = pre' @ d' @ post' \<and> occursAt doiShape pre' d' post' \<longrightarrow>
              length lead \<le> length pre')"
    then have occ: "occursAt doiShape lead ''10.1234/abcd.5'' trail"
      using doiShape_example example_end_boundary [of trail lead]
      unfolding occursAt_def by blast
    have "match raw doiRegex = Some ''10.1234/abcd.5''"
      using a by (intro match_delimited [OF mc doiShape_no_space _ occ]) blast+
    with a show "extractDoi doiRegex known raw = Some ''10.1234/abcd.5''"
      by (simp add: extractDoi_scan)
  qed
  have 5: "\<not> truthy known \<and> raw = lead @ ''10.1234/abcd.5'' @ trail
        \<and> atBoundary (rev lead, ''10.1234/abcd.5'' @ trail)
        \<and> (trail = [] \<or> isWhiteSpace (hd trail))
        \<and> (\<forall>pre' d' post'. raw = pre' @ d' @ post' \<and> occursAt doiShape_legacy pre' d' post' \<longrightarrow>
              length lead \<le> length pre')
      \<longrightarrow> extractDoi doiRegex_legacy known raw = Some ''10.1234/abcd.5''"
  proof
    assume a: "\<not> truthy known \<and> raw = lead @ ''10.1234/abcd.5'' @ trail
        \<and> atBoundary (rev lead, ''10.1234/abcd.5'' @ trail)
        \<and> (trail = [] \<or> isWhiteSpace (hd trail))
        \<and> (\<forall>pre' d' post'. raw = pre' @ d' @ post' \<and> occursAt doiShape_legacy pre' d' post' \<longrightarrow>
              length lead \<le> length pre')"
    then have occ: "occursAt doiShape_legacy lead ''10.1234/abcd.5'' trail"
      using doiShape_legacy_example example_end_boundary [of trail lead]
      unfolding occursAt_def by blast
    have "match raw doiRegex_legacy = Some ''10.1234/abcd.5''"
      using a by (intro match_delimited [OF mcl doiShape_legacy_no_space _ occ]) blast+
    with a show "extractDoi doiRegex_legacy known raw = Some ''10.1234/abcd.5''"
      by (simp add: extractDoi_scan)
  qed
  from 1 2 3 4 5 show ?thesis by (intro conjI)
qed

theorem identifier_extraction_witness:
  "truthy (Some ''10.1000/xyz123'')
   \<and> extractDoi doiRegex (Some ''10.1000/xyz123'') ''Smith (2020)'' = Some ''10.1000/xyz123''
   \<and> \<not> truthy None
   \<and> atBoundary (rev [], ''10.1234/abcd.5'' @ [])
   \<and> extractDoi doiRegex None ''10.1234/abcd.5'' = Some ''10.1234/abcd.5''
   \<and> extractDoi doiRegex_legacy None ''10.1234/abcd.5'' = Some ''10.1234/abcd.5''"
proof -
  have a: "truthy (Some ''10.1000/xyz123'')"
    by (simp add: truthy_def)
  have b: "\<not> truthy None"
    by (simp add: truthy_def)
  have c: "atBoundary (rev [], ''10.1234/abcd.5'' @ [])"
    by (simp add: atBoundary_def wordBefore_def wordAfter_def isWordChar_def)
  have d: "''10.1234/abcd.5'' = [] @ ''10.1234/abcd.5'' @ []"
    by simp
  note at_known = identifier_extraction
    [where known = "Some ''10.1000/xyz123''" and raw = "''Smith (2020)''"]
  note at_scan = identifier_extraction
    [where known = None and raw = "''10.1234/abcd.5''" and lead = "[]" and trail = "[]"]
  have "extractDoi doiRegex (Some ''10.1000/xyz123'') ''Smith (2020)'' = Some ''10.1000/xyz123''"
    using a at_known by blast
  moreover have "extractDoi doiRegex None ''10.1234/abcd.5'' = Some ''10.1234/abcd.5''"
    using b c d at_scan by simp
  moreover have "extractDoi doiRegex_legacy None ''10.1234/abcd.5'' = Some ''10.1234/abcd.5''"
    using b c d at_scan by simp
  ultimately show ?thesis
    using a b c by blast
qed

text \<open>
  The claim as stated fails: a text can contain \<^verbatim>\<open>10.1234/abcd.5\<close> and give no
  identifier (no word boundary before it), or a longer one (the match goes on to the next
  white space).
\<close>

theorem identifier_extraction_counterexample:
  "extractDoi doiRegex None ''ref10.1234/abcd.5'' = None
   \<and> extractDoi doiRegex_legacy None ''ref10.1234/abcd.5'' = None
   \<and> extractDoi doiRegex None ''10.1234/abcd.5x'' = Some ''10.1234/abcd.5x''
   \<and> extractDoi doiRegex None ''see 10.1234/abcd.5 for details'' = Some ''10.1234/abcd.5''"
  by code_simp

end
